theory Spec2Isabelle
  imports Complex_Main "HOL-Library.Log_Nat"
begin

section \<open>Tether: the archetype scoring engine of app.py\<close>

text \<open>
  The two pure functions of app.py, \<open>analyze_archetype\<close> and
  \<open>get_archetype_percentages\<close>, embedded with the arithmetic Python performs:
  integers are unbounded (\<open>int\<close>), and every float operation
  (\<open>*\<close> by 1.5, 0.2 and 100, the true division \<open>/\<close>, \<open>int\<close> and \<open>round\<close> of a float)
  is IEEE 754 binary64 with round-to-nearest, ties-to-even.

  A text is a \<open>string\<close>: a list of code points below 256 (the Latin-1 range of a
  Python \<open>str\<close>), one \<open>char\<close> per code point.
\<close>

subsection \<open>Binary64 arithmetic\<close>

text \<open>
  A double is a pair \<open>(m, e)\<close> denoting \<open>m * 2 ^ e\<close>. Exponents are unbounded: the values
  of this program stay far inside the normal range of binary64, where neither overflow
  nor gradual underflow occurs.
\<close>

type_synonym double = "int \<times> int"

definition dval :: "double \<Rightarrow> real" where
  "dval x = real_of_int (fst x) * 2 powi (snd x)"

text \<open>\<open>n / d\<close> rounded to the nearest integer, ties to the even one (\<open>d > 0\<close>).\<close>

definition rne_div :: "int \<Rightarrow> int \<Rightarrow> int" where
  "rne_div n d =
     (let q = n div d; r = n mod d
      in if 2 * r < d then q
         else if d < 2 * r then q + 1
         else if even q then q else q + 1)"

text \<open>Numerator and denominator of \<open>(n / d) * 2 ^ (- e)\<close>.\<close>

definition scaled :: "int \<Rightarrow> int \<Rightarrow> int \<Rightarrow> int \<times> int" where
  "scaled n d e = (if 0 \<le> e then (n, d * 2 ^ nat e) else (n * 2 ^ nat (- e), d))"

text \<open>
  The exponent of the 53-bit significand of \<open>n / d\<close> (\<open>n > 0\<close>, \<open>d > 0\<close>): the \<open>e\<close> with
  \<open>2 ^ 52 \<le> (n / d) * 2 ^ (- e) < 2 ^ 53\<close>.
\<close>

definition expo :: "int \<Rightarrow> int \<Rightarrow> int" where
  "expo n d =
     (let e1 = bitlen n - bitlen d - 53;
          (n1, d1) = scaled n d e1
      in if n1 < 2 ^ 53 * d1 then e1 else e1 + 1)"

text \<open>The rational \<open>n / d\<close> (\<open>d > 0\<close>) rounded to binary64.\<close>

definition rnd53 :: "int \<Rightarrow> int \<Rightarrow> double" where
  "rnd53 n d =
     (if n = 0 then (0, 0)
      else let e = expo \<bar>n\<bar> d; (n2, d2) = scaled n d e in (rne_div n2 d2, e))"

text \<open>Conversion of an \<open>int\<close> operand to float, and the float literals of the source.\<close>

definition py_float :: "int \<Rightarrow> double" where
  "py_float i = rnd53 i 1"

definition float_1_5 :: double where
  "float_1_5 = rnd53 15 10"

definition float_0_2 :: double where
  "float_0_2 = rnd53 2 10"

text \<open>Float multiplication: the exact product, rounded.\<close>

definition fmul :: "double \<Rightarrow> double \<Rightarrow> double" where
  "fmul x y =
     (let m = fst x * fst y; e = snd x + snd y
      in if 0 \<le> e then rnd53 (m * 2 ^ nat e) 1 else rnd53 m (2 ^ nat (- e)))"

datatype py_error = ZeroDivisionError

text \<open>True division \<open>a / b\<close> of two ints: the exact quotient, rounded.\<close>

definition truediv :: "int \<Rightarrow> int \<Rightarrow> py_error + double" where
  "truediv a b =
     (if b = 0 then Inl ZeroDivisionError
      else Inr (rnd53 (if b < 0 then - a else a) \<bar>b\<bar>))"

text \<open>\<open>int(x)\<close> of a float truncates towards zero.\<close>

definition py_int :: "double \<Rightarrow> int" where
  "py_int x =
     (let m = fst x; e = snd x
      in if 0 \<le> e then m * 2 ^ nat e
         else if 0 \<le> m then m div 2 ^ nat (- e)
         else - ((- m) div 2 ^ nat (- e)))"

text \<open>\<open>round(x)\<close> of a float, with no digits given: to the nearest int, ties to even.\<close>

definition py_round :: "double \<Rightarrow> int" where
  "py_round x =
     (let m = fst x; e = snd x
      in if 0 \<le> e then m * 2 ^ nat e else rne_div m (2 ^ nat (- e)))"

subsection \<open>Strings\<close>

text \<open>\<open>str.lower\<close> on code points below 256.\<close>

definition lower_char :: "char \<Rightarrow> char" where
  "lower_char c =
     (let n = (of_char c :: nat)
      in if (65 \<le> n \<and> n \<le> 90) \<or> (192 \<le> n \<and> n \<le> 222 \<and> n \<noteq> 215)
         then char_of (n + 32) else c)"

definition lower :: "string \<Rightarrow> string" where
  "lower s = map lower_char s"

text \<open>The class \<open>\w\<close> of a \<open>str\<close> pattern: letters, digits and the underscore.\<close>

definition is_word_char :: "char \<Rightarrow> bool" where
  "is_word_char c =
     (let n = (of_char c :: nat)
      in (48 \<le> n \<and> n \<le> 57) \<or> (65 \<le> n \<and> n \<le> 90) \<or> n = 95 \<or> (97 \<le> n \<and> n \<le> 122)
         \<or> n = 170 \<or> n = 178 \<or> n = 179 \<or> n = 181 \<or> n = 185 \<or> n = 186
         \<or> (188 \<le> n \<and> n \<le> 190) \<or> (192 \<le> n \<and> n \<le> 214)
         \<or> (216 \<le> n \<and> n \<le> 246) \<or> 248 \<le> n)"

text \<open>
  \<open>re.findall(r'\b\w+\b', s)\<close>: a match starts where a word character follows a
  non-word character (or the start), \<open>\w+\<close> is greedy and the closing \<open>\b\<close> holds at the
  end of the run, so the matches are the maximal runs of word characters, left to right.
  \<open>cur\<close> is the run being read.
\<close>

fun findall_from :: "string \<Rightarrow> string \<Rightarrow> string list" where
  "findall_from cur [] = (if cur = [] then [] else [cur])"
| "findall_from cur (c # cs) =
     (if is_word_char c then findall_from (cur @ [c]) cs
      else (if cur = [] then [] else [cur]) @ findall_from [] cs)"

definition findall_words :: "string \<Rightarrow> string list" where
  "findall_words s = findall_from [] s"

text \<open>\<open>k in s\<close> for strings: \<open>k\<close> occurs in \<open>s\<close> as a contiguous substring.\<close>

fun starts_with :: "string \<Rightarrow> string \<Rightarrow> bool" where
  "starts_with [] s = True"
| "starts_with (k # ks) [] = False"
| "starts_with (k # ks) (c # cs) = (k = c \<and> starts_with ks cs)"

fun str_in :: "string \<Rightarrow> string \<Rightarrow> bool" where
  "str_in k [] = (k = [])"
| "str_in k (c # cs) = (starts_with k (c # cs) \<or> str_in k cs)"

subsection \<open>Configuration\<close>

definition BRIDGE_VERBS :: "string list" where
  "BRIDGE_VERBS =
    [''negotiate'', ''close'', ''prospect'', ''canvass'', ''pitch'', ''lobby'', ''advocate'',
     ''rally'', ''galvanize'', ''broker'', ''influence'', ''charm'', ''convert'', ''recruit'',
     ''source'', ''interview'', ''hire'', ''onboard'', ''persuade'', ''sell'', ''upsell'',
     ''win'', ''secure'', ''capture'', ''retain'', ''deal'', ''network'',
     ''align'', ''unify'', ''integrate'', ''merge'', ''mentor'', ''coach'', ''empower'',
     ''facilitate'', ''mediate'', ''liaise'', ''collaborate'', ''partner'', ''guide'',
     ''teach'', ''train'', ''present'', ''speak'', ''communicate'', ''translate'',
     ''bridge'', ''connect'', ''represent'', ''champion'', ''evangelize'', ''foster'',
     ''cultivate'', ''nurture'', ''relationship'', ''stakeholder'']"

definition BUILDER_VERBS :: "string list" where
  "BUILDER_VERBS =
    [''build'', ''architect'', ''engineer'', ''develop'', ''code'', ''program'', ''design'',
     ''create'', ''construct'', ''forge'', ''implement'', ''deploy'', ''launch'', ''ship'',
     ''prototype'', ''draft'', ''compose'', ''write'', ''author'', ''fabricate'', ''assemble'',
     ''invent'', ''innovate'', ''pioneer'', ''found'', ''establish'', ''generate'', ''produce'',
     ''craft'', ''devise'', ''formulate'', ''conceptualize'', ''model'']"

definition OPERATOR_VERBS :: "string list" where
  "OPERATOR_VERBS =
    [''manage'', ''operate'', ''run'', ''maintain'', ''support'', ''administer'', ''optimize'',
     ''streamline'', ''scale'', ''execute'', ''process'', ''handle'', ''oversee'', ''supervise'',
     ''direct'', ''coordinate'', ''monitor'', ''track'', ''report'', ''analyze'', ''audit'',
     ''ensure'', ''enforce'', ''comply'', ''regulate'', ''budget'', ''forecast'', ''schedule'',
     ''logistics'', ''inventory'', ''efficiency'', ''workflow'', ''systematize'', ''organize'']"

definition SALES_KEYWORDS :: "string list" where
  "SALES_KEYWORDS =
    [''sales'', ''account'', ''business development'', ''biz dev'', ''recruiter'',
     ''talent acquisition'', ''pr'', ''public relations'', ''brand'', ''marketing'', ''client'',
     ''customer success'']"

definition EXECUTIVE_KEYWORDS :: "string list" where
  "EXECUTIVE_KEYWORDS =
    [''chief'', ''president'', ''vp'', ''vice president'', ''head of'', ''director'', ''founder'',
     ''c-suite'', ''principal'']"

subsection \<open>analyze_archetype\<close>

text \<open>\<open>sum(10 for w in words if w in VERBS)\<close>.\<close>

definition verb_score :: "string list \<Rightarrow> string list \<Rightarrow> int" where
  "verb_score VERBS words = sum_list (map (\<lambda>w. 10) (filter (\<lambda>w. w \<in> set VERBS) words))"

text \<open>\<open>any(k in text_lower for k in KEYWORDS)\<close>.\<close>

definition any_in :: "string list \<Rightarrow> string \<Rightarrow> bool" where
  "any_in KEYWORDS text_lower = list_ex (\<lambda>k. str_in k text_lower) KEYWORDS"

text \<open>The two conditional adjustments, lines 83 to 89.\<close>

definition commercial_boost :: "bool \<Rightarrow> int \<Rightarrow> int" where
  "commercial_boost is_commercial bridge_score =
     (if is_commercial then py_int (fmul (py_float bridge_score) float_1_5)
      else bridge_score)"

definition executive_shift :: "bool \<Rightarrow> int \<times> int \<Rightarrow> int \<times> int" where
  "executive_shift is_executive ob =
     (let operator_score = fst ob; bridge_score = snd ob
      in if is_executive
         then (let shift = py_int (fmul (py_float operator_score) float_0_2)
               in (operator_score - shift, bridge_score + shift))
         else (operator_score, bridge_score))"

record scores =
  Builder :: int
  Operator :: int
  Bridge :: int
  Total :: int

definition analyze_archetype :: "string \<Rightarrow> scores" where
  "analyze_archetype text =
     (let text_lower = lower text;
          words = findall_words text_lower;
          builder_score = verb_score BUILDER_VERBS words;
          operator_score = verb_score OPERATOR_VERBS words;
          bridge_score = verb_score BRIDGE_VERBS words;
          is_commercial = any_in SALES_KEYWORDS text_lower;
          is_executive = any_in EXECUTIVE_KEYWORDS text_lower;
          bridge_score = commercial_boost is_commercial bridge_score;
          (operator_score, bridge_score) =
             executive_shift is_executive (operator_score, bridge_score);
          tot = builder_score + operator_score + bridge_score
      in if tot = 0
         then \<lparr>Builder = 0, Operator = 0, Bridge = 0, Total = 1\<rparr>
         else \<lparr>Builder = builder_score, Operator = operator_score,
               Bridge = bridge_score, Total = tot\<rparr>)"

subsection \<open>get_archetype_percentages\<close>

text \<open>
  \<open>round((score / total) * 100)\<close>; the division raises when \<open>total\<close> is 0.
  (\<open>tot\<close> stands for the source's variable \<open>total\<close>.)
\<close>

definition pct :: "int \<Rightarrow> int \<Rightarrow> py_error + int" where
  "pct score tot =
     (case truediv score tot of
        Inl err \<Rightarrow> Inl err
      | Inr q \<Rightarrow> Inr (py_round (fmul q (py_float 100))))"

text \<open>
  \<open>sorted(items, key=lambda x: x[1], reverse=True)\<close>: descending by the second
  component; the sort is stable, also with \<open>reverse=True\<close>, so items with equal keys keep
  the order they have in \<open>items\<close>. Insertion from the right gives exactly that.
\<close>

fun insert_desc :: "string \<times> int \<Rightarrow> (string \<times> int) list \<Rightarrow> (string \<times> int) list" where
  "insert_desc x [] = [x]"
| "insert_desc x (y # ys) = (if snd y \<le> snd x then x # y # ys else y # insert_desc x ys)"

definition sorted_reverse :: "(string \<times> int) list \<Rightarrow> (string \<times> int) list" where
  "sorted_reverse items = foldr insert_desc items []"

text \<open>
  The dict \<open>pcts\<close> is the list of its items in insertion order. The result is the triple
  \<open>(pcts, sorted_pcts, is_hybrid)\<close>.
\<close>

definition get_archetype_percentages ::
  "scores \<Rightarrow> py_error + ((string \<times> int) list \<times> (string \<times> int) list \<times> bool)" where
  "get_archetype_percentages sc =
     (let tot = Total sc
      in case pct (Builder sc) tot of Inl err \<Rightarrow> Inl err | Inr pb \<Rightarrow>
         (case pct (Operator sc) tot of Inl err \<Rightarrow> Inl err | Inr po \<Rightarrow>
         (case pct (Bridge sc) tot of Inl err \<Rightarrow> Inl err | Inr pr \<Rightarrow>
           (let pcts = [(''Builder'', pb), (''Operator'', po), (''Bridge'', pr)];
                sorted_pcts = sorted_reverse pcts;
                primary = sorted_pcts ! 0;
                secondary = sorted_pcts ! 1;
                gap = snd primary - snd secondary;
                is_hybrid = (gap < 20)
            in Inr (pcts, sorted_pcts, is_hybrid)))))"

subsection \<open>Specification vocabulary\<close>

text \<open>
  Notions the properties are stated with; none of them is used by the program.

  An alphanumeric character is a word character other than the underscore.
\<close>

definition is_alnum_char :: "char \<Rightarrow> bool" where
  "is_alnum_char c = (is_word_char c \<and> c \<noteq> CHR ''_'')"

text \<open>
  The maximal runs of characters satisfying \<open>P\<close>, left to right: skip what does not
  satisfy \<open>P\<close>, take what does, repeat.
\<close>

function runs :: "(char \<Rightarrow> bool) \<Rightarrow> string \<Rightarrow> string list" where
  "runs P s =
     (case dropWhile (\<lambda>c. \<not> P c) s of
        [] \<Rightarrow> []
      | c # cs \<Rightarrow> (c # takeWhile P cs) # runs P (dropWhile P cs))"
  by pat_completeness auto
termination
proof (relation "measure (\<lambda>(P, s). length s)")
  show "wf (measure (\<lambda>(P, s). length s))" by simp
next
  fix P :: "char \<Rightarrow> bool" and s :: string and c cs
  assume h: "dropWhile (\<lambda>c. \<not> P c) s = c # cs"
  have "length (dropWhile P cs) \<le> length cs" by (rule length_dropWhile_le)
  moreover have "length (c # cs) \<le> length s"
    using length_dropWhile_le [of "\<lambda>c. \<not> P c" s] h by simp
  ultimately show "((P, dropWhile P cs), (P, s)) \<in> measure (\<lambda>(P, s). length s)"
    by simp
qed

declare runs.simps [simp del]

text \<open>
  \<open>w\<close> occurs in \<open>s\<close> as a whole word: a non-empty string of word characters, with no
  word character directly before or after it.
\<close>

definition occurs_whole :: "string \<Rightarrow> string \<Rightarrow> bool" where
  "occurs_whole w s =
     (w \<noteq> [] \<and> list_all is_word_char w \<and>
      (\<exists>p q. s = p @ w @ q \<and> (p = [] \<or> \<not> is_word_char (last p))
                            \<and> (q = [] \<or> \<not> is_word_char (hd q))))"

text \<open>A real rounded to the nearest integer, an exact half to the even neighbour.\<close>

definition rne :: "real \<Rightarrow> int" where
  "rne x =
     (let f = \<lfloor>x\<rfloor>; r = x - of_int f
      in if r < 1 / 2 then f
         else if 1 / 2 < r then f + 1
         else if even f then f else f + 1)"

text \<open>
  \<open>p\<close> is a nearest integer to the exact percentage \<open>s / T * 100\<close>, and is its
  round-half-even unless the exact percentage is an exact half.
\<close>

definition nearest_pct :: "int \<Rightarrow> int \<Rightarrow> int \<Rightarrow> bool" where
  "nearest_pct p s T =
     (\<bar>real_of_int p - real_of_int s / real_of_int T * 100\<bar> \<le> 1 / 2
      \<and> (frac (real_of_int s / real_of_int T * 100) \<noteq> 1 / 2
           \<longrightarrow> p = rne (real_of_int s / real_of_int T * 100)))"

section \<open>Properties\<close>

subsection \<open>Tokens\<close>

lemma runs_Nil: "runs P [] = []"
  by (simp add: runs.simps)

lemma runs_skip: "\<not> P c \<Longrightarrow> runs P (c # cs) = runs P cs"
  by (simp add: runs.simps [of P "c # cs"] runs.simps [of P cs])

lemma runs_take: "P c \<Longrightarrow> runs P (c # cs) = (c # takeWhile P cs) # runs P (dropWhile P cs)"
  by (simp add: runs.simps [of P "c # cs"])

lemma runs_split:
  "runs P s = (if takeWhile P s = [] then [] else [takeWhile P s]) @ runs P (dropWhile P s)"
proof (cases s)
  case Nil
  then show ?thesis by (simp add: runs_Nil)
next
  case (Cons d ds)
  then show ?thesis by (cases "P d") (simp_all add: runs_take)
qed

lemma findall_from_runs:
  "findall_from cur s =
     (if cur @ takeWhile is_word_char s = [] then [] else [cur @ takeWhile is_word_char s])
       @ runs is_word_char (dropWhile is_word_char s)"
proof (induction s arbitrary: cur)
  case Nil
  then show ?case by (simp add: runs_Nil)
next
  case (Cons c cs)
  show ?case
  proof (cases "is_word_char c")
    case True
    then show ?thesis using Cons.IH [of "cur @ [c]"] by simp
  next
    case False
    have "findall_from [] cs = runs is_word_char cs"
      using Cons.IH [of "[]"] runs_split [of is_word_char cs] by simp
    with False show ?thesis by (simp add: runs_skip)
  qed
qed

lemma findall_words_runs: "findall_words s = runs is_word_char s"
  using findall_from_runs [of "[]" s] runs_split [of is_word_char s]
  by (simp add: findall_words_def)

lemma findall_from_sep:
  "\<not> is_word_char c \<Longrightarrow>
     findall_from cur (s @ c # r) = findall_from cur s @ findall_from [] r"
  by (induction s arbitrary: cur) auto

lemma findall_from_word:
  "list_all is_word_char k \<Longrightarrow> findall_from cur k = (if cur @ k = [] then [] else [cur @ k])"
  by (induction k arbitrary: cur) auto

lemma findall_from_word_sep:
  "list_all is_word_char k \<Longrightarrow> \<not> is_word_char c \<Longrightarrow>
     findall_from cur (k @ c # r) = (if cur @ k = [] then [] else [cur @ k]) @ findall_from [] r"
  by (simp add: findall_from_sep findall_from_word)

lemma findall_words_sep:
  "\<not> is_word_char c \<Longrightarrow> findall_words (s @ c # r) = findall_words s @ findall_words r"
  by (simp add: findall_words_def findall_from_sep)

lemma token_occurs_aux:
  "w \<in> set (findall_from cur s) \<Longrightarrow> list_all is_word_char cur \<Longrightarrow>
     (\<exists>r q. s = r @ q \<and> w = cur @ r \<and> w \<noteq> [] \<and> list_all is_word_char r
             \<and> (q = [] \<or> \<not> is_word_char (hd q)))
   \<or> (\<exists>p q. s = p @ w @ q \<and> p \<noteq> [] \<and> \<not> is_word_char (last p) \<and> w \<noteq> []
             \<and> list_all is_word_char w \<and> (q = [] \<or> \<not> is_word_char (hd q)))"
proof (induction s arbitrary: cur)
  case Nil
  then show ?case by (auto split: if_splits)
next
  case (Cons c cs)
  show ?case
  proof (cases "is_word_char c")
    case True
    with Cons.prems have m: "w \<in> set (findall_from (cur @ [c]) cs)"
      and a: "list_all is_word_char (cur @ [c])" by auto
    from Cons.IH [OF m a] show ?thesis
    proof
      assume "\<exists>r q. cs = r @ q \<and> w = (cur @ [c]) @ r \<and> w \<noteq> [] \<and> list_all is_word_char r
             \<and> (q = [] \<or> \<not> is_word_char (hd q))"
      then obtain r q where "cs = r @ q" "w = (cur @ [c]) @ r" "w \<noteq> []" "list_all is_word_char r"
        "q = [] \<or> \<not> is_word_char (hd q)" by blast
      then have "c # cs = (c # r) @ q \<and> w = cur @ (c # r) \<and> w \<noteq> [] \<and> list_all is_word_char (c # r)
             \<and> (q = [] \<or> \<not> is_word_char (hd q))" using True by simp
      then show ?thesis by blast
    next
      assume "\<exists>p q. cs = p @ w @ q \<and> p \<noteq> [] \<and> \<not> is_word_char (last p) \<and> w \<noteq> []
             \<and> list_all is_word_char w \<and> (q = [] \<or> \<not> is_word_char (hd q))"
      then obtain p q where "cs = p @ w @ q" "p \<noteq> []" "\<not> is_word_char (last p)" "w \<noteq> []"
        "list_all is_word_char w" "q = [] \<or> \<not> is_word_char (hd q)" by blast
      then have "c # cs = (c # p) @ w @ q \<and> c # p \<noteq> [] \<and> \<not> is_word_char (last (c # p)) \<and> w \<noteq> []
             \<and> list_all is_word_char w \<and> (q = [] \<or> \<not> is_word_char (hd q))" by simp
      then show ?thesis by blast
    qed
  next
    case False
    with Cons.prems have "(cur \<noteq> [] \<and> w = cur) \<or> w \<in> set (findall_from [] cs)"
      by (auto split: if_splits)
    then show ?thesis
    proof
      assume "cur \<noteq> [] \<and> w = cur"
      then have "c # cs = [] @ (c # cs) \<and> w = cur @ [] \<and> w \<noteq> [] \<and> list_all is_word_char []
             \<and> (c # cs = [] \<or> \<not> is_word_char (hd (c # cs)))" using False by simp
      then show ?thesis by blast
    next
      assume m: "w \<in> set (findall_from [] cs)"
      have a0: "list_all is_word_char []" by simp
      from Cons.IH [OF m a0] show ?thesis
      proof
          assume "\<exists>r q. cs = r @ q \<and> w = [] @ r \<and> w \<noteq> [] \<and> list_all is_word_char r
             \<and> (q = [] \<or> \<not> is_word_char (hd q))"
          then obtain q where "cs = w @ q" "w \<noteq> []" "list_all is_word_char w"
            "q = [] \<or> \<not> is_word_char (hd q)" by auto
          then have "c # cs = [c] @ w @ q \<and> [c] \<noteq> [] \<and> \<not> is_word_char (last [c]) \<and> w \<noteq> []
             \<and> list_all is_word_char w \<and> (q = [] \<or> \<not> is_word_char (hd q))" using False by simp
          then show ?thesis by blast
        next
          assume "\<exists>p q. cs = p @ w @ q \<and> p \<noteq> [] \<and> \<not> is_word_char (last p) \<and> w \<noteq> []
             \<and> list_all is_word_char w \<and> (q = [] \<or> \<not> is_word_char (hd q))"
          then obtain p q where "cs = p @ w @ q" "p \<noteq> []" "\<not> is_word_char (last p)" "w \<noteq> []"
            "list_all is_word_char w" "q = [] \<or> \<not> is_word_char (hd q)" by blast
          then have "c # cs = (c # p) @ w @ q \<and> c # p \<noteq> [] \<and> \<not> is_word_char (last (c # p)) \<and> w \<noteq> []
             \<and> list_all is_word_char w \<and> (q = [] \<or> \<not> is_word_char (hd q))" by simp
          then show ?thesis by blast
      qed
    qed
  qed
qed

lemma token_occurs: "w \<in> set (findall_words s) \<Longrightarrow> occurs_whole w s"
proof -
  assume m: "w \<in> set (findall_words s)"
  have "w \<in> set (findall_from [] s)" using m by (simp add: findall_words_def)
  from token_occurs_aux [OF this] show ?thesis
    unfolding occurs_whole_def by auto
qed

lemma occurs_token: "occurs_whole w s \<Longrightarrow> w \<in> set (findall_words s)"
proof -
  assume "occurs_whole w s"
  then obtain p q where w: "w \<noteq> []" "list_all is_word_char w" and s: "s = p @ w @ q"
    and p: "p = [] \<or> \<not> is_word_char (last p)" and q: "q = [] \<or> \<not> is_word_char (hd q)"
    unfolding occurs_whole_def by blast
  have tail: "w \<in> set (findall_from [] (w @ q))"
  proof (cases q)
    case Nil
    with w show ?thesis by (simp add: findall_from_word)
  next
    case (Cons c r)
    with q have "\<not> is_word_char c" by simp
    with w Cons show ?thesis by (simp add: findall_from_word_sep)
  qed
  show ?thesis
  proof (cases "p = []")
    case True
    with tail s show ?thesis by (simp add: findall_words_def)
  next
    case False
    then obtain p' c where pc: "p = p' @ [c]" by (metis rev_exhaust)
    with p have "\<not> is_word_char c" by simp
    then have "findall_words (p' @ c # (w @ q)) = findall_words p' @ findall_words (w @ q)"
      by (rule findall_words_sep)
    with tail s pc show ?thesis by (simp add: findall_words_def)
  qed
qed

subsection \<open>Keyword counts\<close>

lemma sum_list_const10: "sum_list (map (\<lambda>w. 10) (xs::'a list)) = 10 * int (length xs)"
  by (induction xs) auto

lemma verb_score_count:
  "verb_score VERBS ws = 10 * int (length (filter (\<lambda>w. w \<in> set VERBS) ws))"
  by (simp add: verb_score_def sum_list_const10)

lemma verb_score_nonneg: "0 \<le> verb_score VERBS ws"
  by (simp add: verb_score_count)

lemma verb_score_append:
  "verb_score VERBS (xs @ ys) = verb_score VERBS xs + verb_score VERBS ys"
  by (simp add: verb_score_count)

lemma verb_score_Cons:
  "verb_score VERBS (w # ws) = (if w \<in> set VERBS then 10 else 0) + verb_score VERBS ws"
  by (simp add: verb_score_count)

lemma verb_score_drop: "w \<notin> set VERBS \<Longrightarrow> verb_score VERBS (pre @ w # post) = verb_score VERBS (pre @ post)"
  by (simp add: verb_score_append verb_score_Cons)

lemma verb_score_zero_iff:
  "verb_score VERBS ws = 0 \<longleftrightarrow> (\<forall>w \<in> set ws. w \<notin> set VERBS)"
  by (simp add: verb_score_count filter_empty_conv)

lemma sum_count_member:
  "distinct ks \<Longrightarrow> (\<Sum>k\<leftarrow>ks. int (count_list ws k)) = int (length (filter (\<lambda>w. w \<in> set ks) ws))"
proof (induction ws)
  case Nil
  then show ?case by (induction ks) auto
next
  case (Cons w ws)
  have "(\<Sum>k\<leftarrow>ks. int (count_list (w # ws) k))
        = (\<Sum>k\<leftarrow>ks. (if w = k then 1 else 0)) + (\<Sum>k\<leftarrow>ks. int (count_list ws k))"
    by (induction ks) auto
  moreover have "distinct ks \<Longrightarrow> (\<Sum>k\<leftarrow>ks. (if w = k then 1 else 0)) = (if w \<in> set ks then 1 else (0::int))"
    by (induction ks) auto
  ultimately show ?case using Cons by simp
qed

lemma verb_score_by_keyword:
  "verb_score VERBS ws = (\<Sum>k\<leftarrow>remdups VERBS. 10 * int (count_list ws k))"
proof -
  have "(\<Sum>k\<leftarrow>remdups VERBS. 10 * int (count_list ws k))
        = 10 * (\<Sum>k\<leftarrow>remdups VERBS. int (count_list ws k))"
    by (simp add: sum_list_const_mult)
  also have "\<dots> = 10 * int (length (filter (\<lambda>w. w \<in> set (remdups VERBS)) ws))"
    by (simp add: sum_count_member)
  finally show ?thesis by (simp add: verb_score_count)
qed

lemma verb_score_removeAll:
  "k \<notin> set ws \<Longrightarrow> verb_score (removeAll k VERBS) ws = verb_score VERBS ws"
proof -
  assume "k \<notin> set ws"
  then have "filter (\<lambda>w. w \<in> set (removeAll k VERBS)) ws = filter (\<lambda>w. w \<in> set VERBS) ws"
    by (intro filter_cong) auto
  then show ?thesis by (simp add: verb_score_count)
qed

lemma count_list_zero: "k \<notin> set ws \<Longrightarrow> count_list ws k = 0"
  by (induction ws) auto

subsection \<open>The scorer\<close>

lemma analyze_archetype_unfold:
  "analyze_archetype text =
     (let ws = findall_words (lower text);
          b = verb_score BUILDER_VERBS ws;
          ob = executive_shift (any_in EXECUTIVE_KEYWORDS (lower text))
                 (verb_score OPERATOR_VERBS ws,
                  commercial_boost (any_in SALES_KEYWORDS (lower text)) (verb_score BRIDGE_VERBS ws))
      in if b + fst ob + snd ob = 0
         then \<lparr>Builder = 0, Operator = 0, Bridge = 0, Total = 1\<rparr>
         else \<lparr>Builder = b, Operator = fst ob, Bridge = snd ob, Total = b + fst ob + snd ob\<rparr>)"
  by (simp add: analyze_archetype_def Let_def split: prod.split)

lemma rnd53_zero: "rnd53 0 d = (0, 0)"
  by (simp add: rnd53_def)

lemma fmul_zero: "fmul (0, 0) y = (0, 0)"
  by (simp add: fmul_def Let_def rnd53_zero)

lemma py_int_zero: "py_int (0, 0) = 0"
  by (simp add: py_int_def)

lemma commercial_boost_zero: "commercial_boost c 0 = 0"
  by (simp add: commercial_boost_def py_float_def rnd53_zero fmul_zero py_int_zero)

lemma executive_shift_zero: "executive_shift e (0, b) = (0, b)"
  by (simp add: executive_shift_def py_float_def rnd53_zero fmul_zero py_int_zero)

lemma commercial_boost_off: "commercial_boost False b = b"
  by (simp add: commercial_boost_def)

lemma executive_shift_off: "executive_shift False ob = ob"
  by (simp add: executive_shift_def)

lemma analyze_Total_nonzero: "Total (analyze_archetype text) \<noteq> 0"
  by (simp add: analyze_archetype_unfold Let_def)

lemma pct_defined: "tot \<noteq> 0 \<Longrightarrow> \<exists>p. pct s tot = Inr p"
  by (simp add: pct_def truediv_def)

lemma percentages_defined:
  "Total sc \<noteq> 0 \<Longrightarrow> \<exists>r. get_archetype_percentages sc = Inr r"
proof -
  assume t: "Total sc \<noteq> 0"
  obtain pb po pr where "pct (Builder sc) (Total sc) = Inr pb"
    "pct (Operator sc) (Total sc) = Inr po" "pct (Bridge sc) (Total sc) = Inr pr"
    using pct_defined [OF t] by metis
  then show ?thesis by (simp add: get_archetype_percentages_def Let_def)
qed

lemma percentages_zero_total:
  "Total sc = 0 \<Longrightarrow> get_archetype_percentages sc = Inl ZeroDivisionError"
  by (simp add: get_archetype_percentages_def pct_def truediv_def)

lemma sentinel_percentages:
  "get_archetype_percentages \<lparr>Builder = 0, Operator = 0, Bridge = 0, Total = 1\<rparr>
     = Inr ([(''Builder'', 0), (''Operator'', 0), (''Bridge'', 0)],
            [(''Builder'', 0), (''Operator'', 0), (''Bridge'', 0)], True)"
  by code_simp

lemma analyze_zero_hits:
  assumes "\<forall>w \<in> set (findall_words (lower text)).
             w \<notin> set BUILDER_VERBS \<and> w \<notin> set OPERATOR_VERBS \<and> w \<notin> set BRIDGE_VERBS"
  shows "analyze_archetype text = \<lparr>Builder = 0, Operator = 0, Bridge = 0, Total = 1\<rparr>"
proof -
  have "verb_score BUILDER_VERBS (findall_words (lower text)) = 0"
    "verb_score OPERATOR_VERBS (findall_words (lower text)) = 0"
    "verb_score BRIDGE_VERBS (findall_words (lower text)) = 0"
    using assms by (simp_all add: verb_score_zero_iff)
  then show ?thesis
    by (simp add: analyze_archetype_unfold Let_def commercial_boost_zero executive_shift_zero)
qed

subsection \<open>Substrings\<close>

lemma starts_with_iff: "starts_with k s \<longleftrightarrow> (\<exists>q. s = k @ q)"
  by (induction k s rule: starts_with.induct) auto

lemma str_in_iff: "str_in k s \<longleftrightarrow> (\<exists>p q. s = p @ k @ q)"
proof (induction s)
  case Nil
  then show ?case by auto
next
  case (Cons c cs)
  show ?case
  proof
    assume "str_in k (c # cs)"
    then consider "starts_with k (c # cs)" | "str_in k cs" by auto
    then show "\<exists>p q. c # cs = p @ k @ q"
    proof cases
      case 1
      then obtain q where "c # cs = [] @ k @ q" by (auto simp: starts_with_iff)
      then show ?thesis by blast
    next
      case 2
      with Cons obtain p q where "cs = p @ k @ q" by blast
      then have "c # cs = (c # p) @ k @ q" by simp
      then show ?thesis by blast
    qed
  next
    assume "\<exists>p q. c # cs = p @ k @ q"
    then obtain p q where e: "c # cs = p @ k @ q" by blast
    show "str_in k (c # cs)"
    proof (cases p)
      case Nil
      with e have "starts_with k (c # cs)" by (auto simp: starts_with_iff)
      then show ?thesis by simp
    next
      case (Cons a p')
      with e have "cs = p' @ k @ q" by simp
      with Cons.IH have "str_in k cs" by blast
      then show ?thesis by simp
    qed
  qed
qed

lemma any_in_iff:
  "any_in KEYWORDS s \<longleftrightarrow> (\<exists>k \<in> set KEYWORDS. \<exists>p q. s = p @ k @ q)"
  by (simp add: any_in_def list_ex_iff str_in_iff)

subsection \<open>Rounding to binary64\<close>

lemma rne_div_rne:
  assumes "0 < d"
  shows "rne_div n d = rne (real_of_int n / real_of_int d)"
proof -
  have fl: "\<lfloor>real_of_int n / real_of_int d\<rfloor> = n div d"
    by (rule floor_divide_of_int_eq)
  have "real_of_int n = real_of_int (n div d) * real_of_int d + real_of_int (n mod d)"
    by (metis of_int_add of_int_mult div_mult_mod_eq)
  then have fr: "real_of_int n / real_of_int d - real_of_int (n div d)
                   = real_of_int (n mod d) / real_of_int d"
    using assms by (simp add: field_simps)
  have lt: "real_of_int (n mod d) / real_of_int d < 1 / 2 \<longleftrightarrow> 2 * (n mod d) < d"
    using assms by (simp add: field_simps) linarith
  have gt: "1 / 2 < real_of_int (n mod d) / real_of_int d \<longleftrightarrow> d < 2 * (n mod d)"
    using assms by (simp add: field_simps) linarith
  show ?thesis
    unfolding rne_div_def rne_def Let_def fl fr lt gt by simp
qed

lemma rne_error: "\<bar>real_of_int (rne x) - x\<bar> \<le> 1 / 2"
  unfolding rne_def Let_def by (auto; linarith)

lemma rne_of_int: "rne (real_of_int k) = k"
  unfolding rne_def Let_def by simp

lemma rne_ge: "real_of_int k \<le> x \<Longrightarrow> k \<le> rne x"
  unfolding rne_def Let_def by (auto simp: le_floor_iff; linarith)

lemma rne_le: "x \<le> real_of_int k \<Longrightarrow> rne x \<le> k"
proof -
  assume h: "x \<le> real_of_int k"
  show ?thesis
  proof (cases "x = real_of_int k")
    case True
    then show ?thesis by (simp add: rne_of_int)
  next
    case False
    with h have "x < real_of_int k" by simp
    then have "\<lfloor>x\<rfloor> < k" by (simp add: floor_less_iff)
    then have "\<lfloor>x\<rfloor> + 1 \<le> k" by simp
    then show ?thesis unfolding rne_def Let_def by auto
  qed
qed

lemma scaled_ratio:
  assumes "0 < d" and "scaled n d e = (n2, d2)"
  shows "0 < d2 \<and> real_of_int n2 / real_of_int d2
                    = real_of_int n / real_of_int d * 2 powi (- e)"
proof (cases "0 \<le> e")
  case True
  with assms have "n2 = n" "d2 = d * 2 ^ nat e" by (simp_all add: scaled_def)
  moreover have "(2::real) powi (- e) = 1 / 2 ^ nat e"
    using True by (simp add: power_int_minus_divide power_int_nonneg_exp)
  ultimately show ?thesis using assms(1) by simp
next
  case False
  with assms have "n2 = n * 2 ^ nat (- e)" "d2 = d" by (simp_all add: scaled_def)
  moreover have "(2::real) powi (- e) = 2 ^ nat (- e)"
    using False by (simp add: power_int_nonneg_exp)
  ultimately show ?thesis using assms(1) by simp
qed

lemma bitlen_real_bounds:
  assumes "0 < n"
  shows "2 powi (bitlen n - 1) \<le> real_of_int n \<and> real_of_int n < 2 powi (bitlen n)"
proof -
  from bitlen_bounds [OF assms]
  have lo: "2 ^ nat (bitlen n - 1) \<le> n" and hi: "n < 2 ^ nat (bitlen n)" by simp_all
  have pos: "1 \<le> bitlen n"
    using assms bitlen_eq_zero_iff [of n] bitlen_nonneg [of n] by linarith
  have "real_of_int (2 ^ nat (bitlen n - 1)) \<le> real_of_int n"
    using lo by (simp only: of_int_le_iff)
  moreover have "real_of_int n < real_of_int (2 ^ nat (bitlen n))"
    using hi by (simp only: of_int_less_iff)
  ultimately show ?thesis
    using pos by (simp add: power_int_nonneg_exp)
qed

lemma expo_cases:
  assumes "0 < n" and "0 < d"
  shows "2 ^ 52 \<le> real_of_int n / real_of_int d * 2 powi (- expo n d)
       \<and> real_of_int n / real_of_int d * 2 powi (- expo n d) < 2 ^ 53"
proof -
  define a where "a = bitlen n"
  define b where "b = bitlen d"
  define e1 where "e1 = a - b - 53"
  define u where "u = real_of_int n / 2 powi a"
  define v where "v = 2 powi b / real_of_int d"
  define y where "y = real_of_int n / real_of_int d * 2 powi (- e1)"
  have pa: "(0::real) < 2 powi a" and pb: "(0::real) < 2 powi b" by simp_all
  have dn: "0 < real_of_int n" "0 < real_of_int d" using assms by simp_all
  have half_a: "(2::real) powi (a - 1) = 2 powi a / 2"
    by (simp add: power_int_diff)
  have half_b: "(2::real) powi (b - 1) = 2 powi b / 2"
    by (simp add: power_int_diff)
  from bitlen_real_bounds [OF assms(1)]
  have n1: "2 powi a / 2 \<le> real_of_int n" and n2: "real_of_int n < 2 powi a"
    by (simp_all add: a_def [symmetric] half_a)
  from bitlen_real_bounds [OF assms(2)]
  have d1: "2 powi b / 2 \<le> real_of_int d" and d2: "real_of_int d < 2 powi b"
    by (simp_all add: b_def [symmetric] half_b)
  have u: "1 / 2 \<le> u" "u < 1"
    using n1 n2 pa by (simp_all add: u_def field_simps)
  have v: "1 < v" "v \<le> 2"
    using d1 d2 dn by (simp_all add: v_def field_simps)
  have "- e1 = (b + 53) - a" by (simp add: e1_def)
  then have "(2::real) powi (- e1) = 2 powi (b + 53) / 2 powi a"
    by (simp add: power_int_diff)
  also have "\<dots> = 2 powi b * 2 ^ 53 / 2 powi a"
    by (simp add: power_int_add)
  finally have pe: "(2::real) powi (- e1) = 2 powi b * 2 ^ 53 / 2 powi a" .
  have yuv: "y = u * v * 2 ^ 53"
    by (simp add: y_def u_def v_def pe mult_ac)
  have uv_lo: "1 / 2 < u * v"
  proof -
    have "1 / 2 * 1 < u * v"
      using u v by (intro mult_le_less_imp_less) simp_all
    then show ?thesis by simp
  qed
  have uv_hi: "u * v < 2"
  proof -
    have "u * v < 1 * 2"
      using u v by (intro mult_less_le_imp_less) simp_all
    then show ?thesis by simp
  qed
  have y_lo: "2 ^ 52 < y" using uv_lo by (simp add: yuv)
  have y_hi: "y < 2 ^ 54" using uv_hi by (simp add: yuv)
  obtain n1' d1' where sc: "scaled n d e1 = (n1', d1')" by (cases "scaled n d e1")
  from scaled_ratio [OF assms(2) sc]
  have d1p: "0 < d1'" and rat: "real_of_int n1' / real_of_int d1' = y"
    by (simp_all add: y_def)
  have cond: "n1' < 2 ^ 53 * d1' \<longleftrightarrow> y < 2 ^ 53"
  proof -
    have "y < 2 ^ 53 \<longleftrightarrow> real_of_int n1' < 2 ^ 53 * real_of_int d1'"
      using d1p by (simp add: rat [symmetric] field_simps)
    also have "\<dots> \<longleftrightarrow> real_of_int n1' < real_of_int (2 ^ 53 * d1')" by simp
    also have "\<dots> \<longleftrightarrow> n1' < 2 ^ 53 * d1'" by (simp only: of_int_less_iff)
    finally show ?thesis by simp
  qed
  have ex: "expo n d = (if y < 2 ^ 53 then e1 else e1 + 1)"
    using cond by (simp add: expo_def Let_def a_def b_def e1_def sc [unfolded e1_def a_def b_def])
  show ?thesis
  proof (cases "y < 2 ^ 53")
    case True
    with ex have "expo n d = e1" by simp
    with True y_lo show ?thesis by (simp add: y_def)
  next
    case False
    with ex have e: "expo n d = e1 + 1" by simp
    have "(2::real) powi (- e1 - 1) = 2 powi (- e1) / 2 powi 1"
      by (rule power_int_diff) simp
    then have h2: "(2::real) powi (- e1 - 1) = 2 powi (- e1) / 2"
      by simp
    have eq: "real_of_int n / real_of_int d * 2 powi (- expo n d) = y / 2"
      by (simp add: e y_def h2)
    have "2 ^ 52 \<le> y / 2 \<and> y / 2 < 2 ^ 53"
      using False y_hi by simp
    then show ?thesis unfolding eq .
  qed
qed

lemma rnd53_pos:
  assumes "0 < n" and "0 < d"
  shows "rnd53 n d
           = (rne (real_of_int n / real_of_int d * 2 powi (- expo n d)), expo n d)"
proof -
  obtain n2 d2 where sc: "scaled n d (expo n d) = (n2, d2)" by (cases "scaled n d (expo n d)")
  from scaled_ratio [OF assms(2) sc]
  have "0 < d2" and "real_of_int n2 / real_of_int d2
                       = real_of_int n / real_of_int d * 2 powi (- expo n d)" by simp_all
  then have "rne_div n2 d2 = rne (real_of_int n / real_of_int d * 2 powi (- expo n d))"
    by (simp add: rne_div_rne)
  then show ?thesis
    using assms(1) by (simp add: rnd53_def Let_def sc)
qed

lemma dval_rnd53_pos:
  assumes "0 < n" and "0 < d"
  shows "dval (rnd53 n d)
           = real_of_int (rne (real_of_int n / real_of_int d * 2 powi (- expo n d)))
               * 2 powi (expo n d)"
  by (simp add: rnd53_pos [OF assms] dval_def)

lemma powi_cancel: "x * 2 powi (- e) * 2 powi e = (x::real)"
proof -
  have "(2::real) powi (- e) * 2 powi e = 2 powi (- e + e)"
    by (rule power_int_add [symmetric]) simp
  then have "(2::real) powi (- e) * 2 powi e = 1" by simp
  then show ?thesis by (simp add: mult.assoc)
qed

lemma rnd53_abs_error:
  assumes "0 < n" and "0 < d"
  shows "\<bar>dval (rnd53 n d) - real_of_int n / real_of_int d\<bar> \<le> 2 powi (expo n d) / 2"
proof -
  define x where "x = real_of_int n / real_of_int d"
  define e where "e = expo n d"
  define s where "s = x * 2 powi (- e)"
  have xs: "x = s * 2 powi e" by (simp add: s_def powi_cancel)
  have dv: "dval (rnd53 n d) = real_of_int (rne s) * 2 powi e"
    by (simp only: s_def x_def e_def dval_rnd53_pos [OF assms])
  have "dval (rnd53 n d) - s * 2 powi e = (real_of_int (rne s) - s) * 2 powi e"
    by (simp add: dv algebra_simps)
  then have "dval (rnd53 n d) - x = (real_of_int (rne s) - s) * 2 powi e"
    by (simp only: xs)
  then have "\<bar>dval (rnd53 n d) - x\<bar> = \<bar>real_of_int (rne s) - s\<bar> * 2 powi e"
    by (simp add: abs_mult)
  also have "\<dots> \<le> 1 / 2 * 2 powi e"
    by (intro mult_right_mono rne_error) simp
  finally show ?thesis by (simp add: x_def e_def)
qed

lemma expo_ulp:
  assumes "0 < n" and "0 < d"
  shows "2 powi (expo n d) * 2 ^ 52 \<le> real_of_int n / real_of_int d"
proof -
  from expo_cases [OF assms]
  have "2 ^ 52 \<le> real_of_int n / real_of_int d * 2 powi (- expo n d)" by simp
  then have "2 ^ 52 * 2 powi (expo n d)
               \<le> real_of_int n / real_of_int d * 2 powi (- expo n d) * 2 powi (expo n d)"
    by (intro mult_right_mono) simp_all
  then have "2 ^ 52 * 2 powi (expo n d) \<le> real_of_int n / real_of_int d"
    by (simp only: powi_cancel)
  then show ?thesis by (simp add: mult.commute)
qed

lemma rnd53_rel_error:
  assumes "0 \<le> n" and "0 < d"
  shows "\<bar>dval (rnd53 n d) - real_of_int n / real_of_int d\<bar>
           \<le> real_of_int n / real_of_int d / 2 ^ 53"
proof (cases "n = 0")
  case True
  then show ?thesis by (simp add: rnd53_zero dval_def)
next
  case False
  with assms have n: "0 < n" by simp
  have "2 powi (expo n d) / 2 \<le> real_of_int n / real_of_int d / 2 ^ 53"
    using expo_ulp [OF n assms(2)] by (simp add: field_simps)
  with rnd53_abs_error [OF n assms(2)] show ?thesis by linarith
qed

lemma rnd53_fst_pos:
  assumes "0 < n" and "0 < d"
  shows "2 ^ 52 \<le> fst (rnd53 n d)"
proof -
  from expo_cases [OF assms]
  have "real_of_int (2 ^ 52) \<le> real_of_int n / real_of_int d * 2 powi (- expo n d)" by simp
  then have "2 ^ 52 \<le> rne (real_of_int n / real_of_int d * 2 powi (- expo n d))"
    by (rule rne_ge)
  then show ?thesis by (simp add: rnd53_pos [OF assms])
qed

lemma rnd53_fst_nonneg: "0 \<le> n \<Longrightarrow> 0 < d \<Longrightarrow> 0 \<le> fst (rnd53 n d)"
proof (cases "n = 0")
  case True
  then show ?thesis by (simp add: rnd53_zero)
next
  case False
  assume "0 \<le> n" "0 < d"
  with False have "2 ^ 52 \<le> fst (rnd53 n d)" by (intro rnd53_fst_pos) simp_all
  then show ?thesis by simp
qed

lemma dval_nonneg: "0 \<le> fst x \<Longrightarrow> 0 \<le> dval x"
  by (simp add: dval_def)

lemma powi_gt_half: "1 / 2 < (2::real) powi i \<Longrightarrow> 0 \<le> i"
proof (rule ccontr)
  assume h: "1 / 2 < (2::real) powi i" and "\<not> 0 \<le> i"
  then have "i \<le> - 1" by simp
  then have "(2::real) powi i \<le> 2 powi (- 1)"
    by (intro power_int_increasing) simp_all
  with h show False by simp
qed

lemma powi_less_exp: "(2::real) powi i < 2 powi k \<Longrightarrow> i < k"
proof (rule ccontr)
  assume h: "(2::real) powi i < 2 powi k" and "\<not> i < k"
  then have "k \<le> i" by simp
  then have "(2::real) powi k \<le> 2 powi i"
    by (intro power_int_increasing) simp_all
  with h show False by simp
qed

lemma expo_le:
  assumes "0 < n" and "0 < d" and "real_of_int n / real_of_int d < 2 powi k"
  shows "expo n d \<le> k - 53"
proof -
  have "(2::real) powi (expo n d + 52) = 2 powi (expo n d) * 2 ^ 52"
    by (simp add: power_int_add)
  with expo_ulp [OF assms(1,2)] assms(3) have "(2::real) powi (expo n d + 52) < 2 powi k"
    by linarith
  then have "expo n d + 52 < k" by (rule powi_less_exp)
  then show ?thesis by simp
qed

lemma rnd53_exact:
  assumes "0 < n" and "0 < d"
    and "real_of_int n / real_of_int d = real_of_int K * 2 powi j" and "K < 2 ^ 53"
  shows "dval (rnd53 n d) = real_of_int n / real_of_int d"
proof -
  define e where "e = expo n d"
  define s where "s = real_of_int n / real_of_int d * 2 powi (- e)"
  have xpos: "0 < real_of_int n / real_of_int d" using assms(1,2) by simp
  then have "0 < real_of_int K * 2 powi j" by (simp only: assms(3))
  moreover have "(0::real) < 2 powi j" by simp
  ultimately have Kpos: "0 < real_of_int K" by (rule zero_less_mult_pos2)
  have "(2::real) powi j * 2 powi (- e) = 2 powi (j + - e)"
    by (rule power_int_add [symmetric]) simp
  then have s: "s = real_of_int K * 2 powi (j - e)"
    by (simp add: s_def assms(3) mult.assoc)
  from expo_cases [OF assms(1,2)] have lo: "2 ^ 52 \<le> s" by (simp add: s_def e_def)
  have "real_of_int K < 2 ^ 53"
    using assms(4) by (metis of_int_less_iff of_int_numeral of_int_power)
  have "1 / 2 < (2::real) powi (j - e)"
  proof (rule ccontr)
    assume "\<not> 1 / 2 < (2::real) powi (j - e)"
    then have "(2::real) powi (j - e) \<le> 1 / 2" by simp
    then have "real_of_int K * 2 powi (j - e) \<le> real_of_int K * (1 / 2)"
      using Kpos by (intro mult_left_mono) simp_all
    with \<open>real_of_int K < 2 ^ 53\<close> lo s show False by simp
  qed
  then have je: "0 \<le> j - e" by (rule powi_gt_half)
  then have "s = real_of_int (K * 2 ^ nat (j - e))"
    by (simp add: s power_int_nonneg_exp)
  then have "real_of_int (rne s) = s" by (simp only: rne_of_int)
  then have "dval (rnd53 n d) = s * 2 powi e"
    using dval_rnd53_pos [OF assms(1,2)] by (simp add: s_def e_def)
  then show ?thesis by (simp add: s_def powi_cancel)
qed

lemma rnd53_grid_lower:
  assumes "0 < n" and "0 < d"
    and "real_of_int K * 2 powi (expo n d) \<le> real_of_int n / real_of_int d"
  shows "real_of_int K * 2 powi (expo n d) \<le> dval (rnd53 n d)"
proof -
  have "real_of_int K * 2 powi (expo n d) * 2 powi (- expo n d)
          \<le> real_of_int n / real_of_int d * 2 powi (- expo n d)"
    using assms(3) by (intro mult_right_mono) simp_all
  moreover have "real_of_int K * 2 powi (expo n d) * 2 powi (- expo n d) = real_of_int K"
    using powi_cancel [of "real_of_int K" "- expo n d"] by simp
  ultimately have "real_of_int K \<le> real_of_int n / real_of_int d * 2 powi (- expo n d)"
    by simp
  then have "K \<le> rne (real_of_int n / real_of_int d * 2 powi (- expo n d))"
    by (rule rne_ge)
  then have "real_of_int K * 2 powi (expo n d)
        \<le> real_of_int (rne (real_of_int n / real_of_int d * 2 powi (- expo n d)))
            * 2 powi (expo n d)"
    by (intro mult_right_mono) simp_all
  then show ?thesis by (simp add: dval_rnd53_pos [OF assms(1,2)])
qed

lemma py_int_floor: "0 \<le> fst x \<Longrightarrow> py_int x = \<lfloor>dval x\<rfloor>"
proof (cases "0 \<le> snd x")
  case True
  then have "dval x = real_of_int (fst x * 2 ^ nat (snd x))"
    by (simp add: dval_def power_int_nonneg_exp)
  then have "\<lfloor>dval x\<rfloor> = fst x * 2 ^ nat (snd x)" by (simp only: floor_of_int)
  with True show ?thesis by (simp add: py_int_def Let_def)
next
  case False
  assume m: "0 \<le> fst x"
  have "(2::real) powi (snd x) = 1 / 2 ^ nat (- snd x)"
    using False by (simp add: power_int_def inverse_eq_divide power_one_over)
  then have "dval x = real_of_int (fst x) / real_of_int (2 ^ nat (- snd x))"
    by (simp add: dval_def)
  then have "\<lfloor>dval x\<rfloor> = fst x div 2 ^ nat (- snd x)"
    by (simp only: floor_divide_of_int_eq)
  with False m show ?thesis by (simp add: py_int_def Let_def)
qed

lemma py_round_rne: "py_round x = rne (dval x)"
proof (cases "0 \<le> snd x")
  case True
  then have "dval x = real_of_int (fst x * 2 ^ nat (snd x))"
    by (simp add: dval_def power_int_nonneg_exp)
  then have "rne (dval x) = fst x * 2 ^ nat (snd x)" by (simp only: rne_of_int)
  with True show ?thesis by (simp add: py_round_def Let_def)
next
  case False
  have "(2::real) powi (snd x) = 1 / 2 ^ nat (- snd x)"
    using False by (simp add: power_int_def inverse_eq_divide power_one_over)
  then have "dval x = real_of_int (fst x) / real_of_int (2 ^ nat (- snd x))"
    by (simp add: dval_def)
  moreover have "rne_div (fst x) (2 ^ nat (- snd x))
                   = rne (real_of_int (fst x) / real_of_int (2 ^ nat (- snd x)))"
    by (rule rne_div_rne) simp
  ultimately show ?thesis using False by (simp add: py_round_def Let_def)
qed

lemma fmul_as_rnd53:
  "\<exists>N D. fmul x y = rnd53 N D \<and> 0 < D \<and> real_of_int N / real_of_int D = dval x * dval y
         \<and> (0 \<le> fst x \<and> 0 \<le> fst y \<longrightarrow> 0 \<le> N)"
proof -
  define m where "m = fst x * fst y"
  define e where "e = snd x + snd y"
  have "(2::real) powi e = 2 powi (snd x) * 2 powi (snd y)"
    unfolding e_def by (rule power_int_add) simp
  then have prod: "dval x * dval y = real_of_int m * 2 powi e"
    by (simp add: dval_def m_def)
  show ?thesis
  proof (cases "0 \<le> e")
    case True
    then have "fmul x y = rnd53 (m * 2 ^ nat e) 1"
      by (simp add: fmul_def Let_def m_def e_def)
    moreover have "real_of_int (m * 2 ^ nat e) / real_of_int 1 = dval x * dval y"
      using True by (simp add: prod power_int_nonneg_exp)
    moreover have "0 \<le> fst x \<and> 0 \<le> fst y \<longrightarrow> 0 \<le> m * 2 ^ nat e"
      by (simp add: m_def)
    ultimately show ?thesis by (metis zero_less_one)
  next
    case False
    then have "fmul x y = rnd53 m (2 ^ nat (- e))"
      by (simp add: fmul_def Let_def m_def e_def)
    moreover have "(2::real) powi e = 1 / 2 ^ nat (- e)"
      using False by (simp add: power_int_def inverse_eq_divide power_one_over)
    then have "real_of_int m / real_of_int (2 ^ nat (- e)) = dval x * dval y"
      by (simp add: prod)
    moreover have "0 \<le> fst x \<and> 0 \<le> fst y \<longrightarrow> 0 \<le> m"
      by (simp add: m_def)
    moreover have "(0::int) < 2 ^ nat (- e)" by simp
    ultimately show ?thesis by blast
  qed
qed

subsection \<open>The float operations of the program\<close>

lemma dval_zero: "dval (0, 0) = 0"
  by (simp add: dval_def)

lemma py_float_nonneg: "0 \<le> i \<Longrightarrow> 0 \<le> fst (py_float i)"
  by (simp add: py_float_def rnd53_fst_nonneg)

lemma py_float_rel_error:
  "0 \<le> i \<Longrightarrow> \<bar>dval (py_float i) - real_of_int i\<bar> \<le> real_of_int i / 2 ^ 53"
  using rnd53_rel_error [of i 1] by (simp add: py_float_def)

lemma py_float_exact:
  assumes "0 \<le> i" and "i < 2 ^ 53"
  shows "dval (py_float i) = real_of_int i"
proof (cases "i = 0")
  case True
  then show ?thesis by (simp add: py_float_def rnd53_zero dval_zero)
next
  case False
  with assms have "0 < i" by simp
  moreover have "real_of_int i / real_of_int 1 = real_of_int i * 2 powi 0" by simp
  ultimately have "dval (rnd53 i 1) = real_of_int i / real_of_int 1"
    using assms(2) by (intro rnd53_exact [where K = i and j = 0]) simp_all
  then show ?thesis by (simp add: py_float_def)
qed

lemma float_1_5_value: "float_1_5 = (6755399441055744, - 52)"
  by code_simp

lemma float_0_2_value: "float_0_2 = (7205759403792794, - 55)"
  by code_simp

lemma float_100_value: "py_float 100 = (7036874417766400, - 46)"
  by code_simp

lemma dval_float_1_5: "dval float_1_5 = 3 / 2"
  by (simp add: float_1_5_value dval_def)

lemma dval_float_0_2: "dval float_0_2 = 7205759403792794 / 36028797018963968"
  by (simp add: float_0_2_value dval_def)

lemma dval_float_100: "dval (py_float 100) = 100"
  by (simp add: float_100_value dval_def)

lemma fmul_nonneg:
  assumes "0 \<le> fst x" and "0 \<le> fst y"
  shows "0 \<le> fst (fmul x y)"
proof -
  from fmul_as_rnd53 [of x y] assms obtain N D where
    "fmul x y = rnd53 N D" "0 < D" "0 \<le> N" by blast
  then show ?thesis by (simp add: rnd53_fst_nonneg)
qed

lemma fmul_rel_error:
  assumes "0 \<le> fst x" and "0 \<le> fst y"
  shows "\<bar>dval (fmul x y) - dval x * dval y\<bar> \<le> dval x * dval y / 2 ^ 53"
proof -
  from fmul_as_rnd53 [of x y] assms obtain N D where
    f: "fmul x y = rnd53 N D" and D: "0 < D" and N: "0 \<le> N"
    and r: "real_of_int N / real_of_int D = dval x * dval y" by blast
  from rnd53_rel_error [OF N D] show ?thesis by (simp add: f r)
qed

lemma fmul_exact:
  assumes "0 \<le> fst x" and "0 \<le> fst y"
    and "dval x * dval y = real_of_int K * 2 powi j" and "K < 2 ^ 53"
  shows "dval (fmul x y) = dval x * dval y"
proof -
  from fmul_as_rnd53 [of x y] assms(1,2) obtain N D where
    f: "fmul x y = rnd53 N D" and D: "0 < D" and N: "0 \<le> N"
    and r: "real_of_int N / real_of_int D = dval x * dval y" by blast
  show ?thesis
  proof (cases "N = 0")
    case True
    with r have "dval x * dval y = 0" by simp
    with True show ?thesis by (simp add: f rnd53_zero dval_zero)
  next
    case False
    with N have "0 < N" by simp
    moreover have "real_of_int N / real_of_int D = real_of_int K * 2 powi j"
      by (simp only: r assms(3))
    ultimately have "dval (rnd53 N D) = real_of_int N / real_of_int D"
      using D assms(4) by (intro rnd53_exact [where K = K and j = j])
    then show ?thesis by (simp add: f r)
  qed
qed

lemma fmul_abs_error_grid:
  assumes "0 \<le> fst x" and "0 \<le> fst y" and "0 < dval x * dval y"
    and "dval x * dval y < 2 powi k"
  shows "\<bar>dval (fmul x y) - dval x * dval y\<bar> \<le> 2 powi (k - 53) / 2"
    and "real_of_int q \<le> dval x * dval y \<Longrightarrow> k \<le> 53 \<Longrightarrow> real_of_int q \<le> dval (fmul x y)"
proof -
  from fmul_as_rnd53 [of x y] assms(1,2) obtain N D where
    f: "fmul x y = rnd53 N D" and D: "0 < D" and N: "0 \<le> N"
    and r: "real_of_int N / real_of_int D = dval x * dval y" by blast
  have Np: "0 < N"
  proof (rule ccontr)
    assume "\<not> 0 < N"
    with N have "N = 0" by simp
    then have "real_of_int N / real_of_int D = 0" by simp
    then have "dval x * dval y = 0" by (simp only: r)
    with assms(3) show False by linarith
  qed
  have e: "expo N D \<le> k - 53"
    using assms(4) by (intro expo_le [OF Np D]) (simp add: r)
  then have p: "(2::real) powi (expo N D) \<le> 2 powi (k - 53)"
    by (intro power_int_increasing) simp_all
  from rnd53_abs_error [OF Np D] p
  show "\<bar>dval (fmul x y) - dval x * dval y\<bar> \<le> 2 powi (k - 53) / 2"
    by (simp add: f r)
  show "real_of_int q \<le> dval (fmul x y)"
    if q: "real_of_int q \<le> dval x * dval y" and k: "k \<le> 53"
  proof -
    from e k have neg: "expo N D \<le> 0" by simp
    define K where "K = q * 2 ^ nat (- expo N D)"
    have "(2::real) powi (- expo N D) = 2 ^ nat (- expo N D)"
      using neg by (simp add: power_int_nonneg_exp)
    then have "real_of_int K = real_of_int q * 2 powi (- expo N D)"
      by (simp add: K_def)
    then have Kq: "real_of_int K * 2 powi (expo N D) = real_of_int q"
      by (simp add: powi_cancel)
    have "real_of_int K * 2 powi (expo N D) \<le> real_of_int N / real_of_int D"
      using q by (simp only: Kq r)
    from rnd53_grid_lower [OF Np D this] show ?thesis
      by (simp only: Kq f)
  qed
qed

lemma boost_exact:
  assumes "0 \<le> b" and "3 * b < 2 ^ 53"
  shows "py_int (fmul (py_float b) float_1_5) = 3 * b div 2"
proof -
  have b53: "b < 2 ^ 53" using assms by simp
  have fb: "dval (py_float b) = real_of_int b" by (rule py_float_exact [OF assms(1) b53])
  have nn: "0 \<le> fst (py_float b)" "0 \<le> fst float_1_5"
    using assms(1) by (simp_all add: py_float_nonneg float_1_5_value)
  have "dval (py_float b) * dval float_1_5 = real_of_int (3 * b) * 2 powi (- 1)"
    by (simp add: fb dval_float_1_5)
  from fmul_exact [OF nn this assms(2)]
  have "dval (fmul (py_float b) float_1_5) = real_of_int (3 * b) / real_of_int 2"
    by (simp add: fb dval_float_1_5)
  then have "\<lfloor>dval (fmul (py_float b) float_1_5)\<rfloor> = 3 * b div 2"
    by (simp only: floor_divide_of_int_eq)
  with py_int_floor [OF fmul_nonneg [OF nn]] show ?thesis by simp
qed

lemma boost_bounds:
  assumes "0 \<le> b"
  shows "0 \<le> py_int (fmul (py_float b) float_1_5)"
    and "0 < b \<Longrightarrow> 0 < py_int (fmul (py_float b) float_1_5)"
proof -
  define A where "A = dval (py_float b)"
  define Z where "Z = dval (fmul (py_float b) float_1_5)"
  have nn: "0 \<le> fst (py_float b)" "0 \<le> fst float_1_5"
    using assms by (simp_all add: py_float_nonneg float_1_5_value)
  have zi: "py_int (fmul (py_float b) float_1_5) = \<lfloor>Z\<rfloor>"
    unfolding Z_def by (rule py_int_floor [OF fmul_nonneg [OF nn]])
  have Z0: "0 \<le> Z" unfolding Z_def by (rule dval_nonneg [OF fmul_nonneg [OF nn]])
  then show "0 \<le> py_int (fmul (py_float b) float_1_5)" by (simp add: zi)
  show "0 < py_int (fmul (py_float b) float_1_5)" if "0 < b"
  proof -
    have b1: "1 \<le> real_of_int b" using that by simp
    have small: "(1::real) / 2 ^ 53 \<le> 1 / 10" by simp
    have "\<bar>A - real_of_int b\<bar> \<le> real_of_int b / 2 ^ 53"
      unfolding A_def by (rule py_float_rel_error [OF assms])
    moreover have "real_of_int b / 2 ^ 53 \<le> real_of_int b / 10"
      using b1 by (intro divide_left_mono) simp_all
    ultimately have A: "9 / 10 * real_of_int b \<le> A" by linarith
    have A0: "0 \<le> A" using A b1 by linarith
    have "\<bar>Z - A * (3 / 2)\<bar> \<le> A * (3 / 2) / 2 ^ 53"
      using fmul_rel_error [OF nn] by (simp add: Z_def A_def dval_float_1_5)
    moreover have "A * (3 / 2) / 2 ^ 53 \<le> A * (3 / 2) / 10"
      using A0 by (intro divide_left_mono) simp_all
    ultimately have "9 / 10 * (A * (3 / 2)) \<le> Z" by linarith
    with A b1 have "1 \<le> Z" by linarith
    then have "1 \<le> \<lfloor>Z\<rfloor>" by (simp add: le_floor_iff)
    then show ?thesis by (simp add: zi)
  qed
qed

lemma shift_bounds:
  assumes "0 \<le> ov"
  shows "0 \<le> py_int (fmul (py_float ov) float_0_2)"
    and "py_int (fmul (py_float ov) float_0_2) \<le> ov"
    and "0 < ov \<Longrightarrow> py_int (fmul (py_float ov) float_0_2) < ov"
proof -
  define A where "A = dval (py_float ov)"
  define Z where "Z = dval (fmul (py_float ov) float_0_2)"
  define c where "c = (7205759403792794 / 36028797018963968 :: real)"
  have nn: "0 \<le> fst (py_float ov)" "0 \<le> fst float_0_2"
    using assms by (simp_all add: py_float_nonneg float_0_2_value)
  have zi: "py_int (fmul (py_float ov) float_0_2) = \<lfloor>Z\<rfloor>"
    unfolding Z_def by (rule py_int_floor [OF fmul_nonneg [OF nn]])
  have Z0: "0 \<le> Z" unfolding Z_def by (rule dval_nonneg [OF fmul_nonneg [OF nn]])
  then show "0 \<le> py_int (fmul (py_float ov) float_0_2)" by (simp add: zi)
  have o0: "0 \<le> real_of_int ov" using assms by simp
  have "\<bar>A - real_of_int ov\<bar> \<le> real_of_int ov / 2 ^ 53"
    unfolding A_def by (rule py_float_rel_error [OF assms])
  moreover have "real_of_int ov / 2 ^ 53 \<le> real_of_int ov / 10"
    using o0 by (intro divide_left_mono) simp_all
  ultimately have A: "A \<le> 11 / 10 * real_of_int ov" by linarith
  have A0: "0 \<le> A" unfolding A_def by (rule dval_nonneg [OF nn(1)])
  have c: "0 \<le> c" "c \<le> 1 / 4" by (simp_all add: c_def)
  have Ac0: "0 \<le> A * c" using A0 c by simp
  have Ac: "A * c \<le> A * (1 / 4)" using A0 c by (intro mult_left_mono) simp_all
  have "\<bar>Z - A * c\<bar> \<le> A * c / 2 ^ 53"
    using fmul_rel_error [OF nn] by (simp add: Z_def A_def dval_float_0_2 c_def)
  moreover have "A * c / 2 ^ 53 \<le> A * c / 10"
    using Ac0 by (intro divide_left_mono) simp_all
  ultimately have "Z \<le> 11 / 10 * (A * c)" by linarith
  with Ac A o0 have Z: "Z \<le> 1 / 2 * real_of_int ov" by linarith
  have fz: "real_of_int \<lfloor>Z\<rfloor> \<le> Z" by simp
  from fz Z o0 have "real_of_int \<lfloor>Z\<rfloor> \<le> real_of_int ov" by linarith
  then show "py_int (fmul (py_float ov) float_0_2) \<le> ov" by (simp add: zi)
  show "py_int (fmul (py_float ov) float_0_2) < ov" if "0 < ov"
  proof -
    have "0 < real_of_int ov" using that by simp
    with fz Z have "real_of_int \<lfloor>Z\<rfloor> < real_of_int ov" by linarith
    then show ?thesis by (simp add: zi)
  qed
qed

lemma shift_exact:
  assumes "0 \<le> ov" and "ov < 2 ^ 52"
  shows "py_int (fmul (py_float ov) float_0_2) = ov div 5"
proof (cases "ov = 0")
  case True
  then show ?thesis by (simp add: py_float_def rnd53_zero fmul_zero py_int_zero)
next
  case False
  with assms have pos: "0 < ov" by simp
  define P where "P = real_of_int ov * (7205759403792794 / 36028797018963968)"
  define Z where "Z = dval (fmul (py_float ov) float_0_2)"
  define q where "q = ov div 5"
  have o53: "ov < 2 ^ 53" using assms(2) by simp
  have fo: "dval (py_float ov) = real_of_int ov" by (rule py_float_exact [OF assms(1) o53])
  have nn: "0 \<le> fst (py_float ov)" "0 \<le> fst float_0_2"
    using assms(1) by (simp_all add: py_float_nonneg float_0_2_value)
  have prod: "dval (py_float ov) * dval float_0_2 = P"
    by (simp add: fo dval_float_0_2 P_def)
  have "real_of_int ov < real_of_int (2 ^ 52)" using assms(2) by (simp only: of_int_less_iff)
  then have ob: "real_of_int ov < 2 ^ 52" by simp
  have op: "1 \<le> real_of_int ov" using pos by simp
  have Ppos: "0 < dval (py_float ov) * dval float_0_2"
    unfolding prod P_def using op by simp
  have Plt: "dval (py_float ov) * dval float_0_2 < 2 powi 50"
    unfolding prod P_def using ob by simp
  have i1: "5 * q \<le> ov" and i2: "ov \<le> 5 * q + 4" unfolding q_def by presburger+
  have "real_of_int (5 * q) \<le> real_of_int ov" using i1 by (simp only: of_int_le_iff)
  moreover have "real_of_int ov \<le> real_of_int (5 * q + 4)" using i2 by (simp only: of_int_le_iff)
  ultimately have qb: "5 * real_of_int q \<le> real_of_int ov"
    "real_of_int ov \<le> 5 * real_of_int q + 4" by simp_all
  have qP: "real_of_int q \<le> dval (py_float ov) * dval float_0_2"
    unfolding prod P_def using qb op by simp
  have lo: "real_of_int q \<le> Z"
    unfolding Z_def by (rule fmul_abs_error_grid(2) [OF nn Ppos Plt qP]) simp
  have "\<bar>Z - P\<bar> \<le> 2 powi (50 - 53) / 2"
    using fmul_abs_error_grid(1) [OF nn Ppos Plt] by (simp add: Z_def prod)
  then have err: "\<bar>Z - P\<bar> \<le> 1 / 16" by simp
  have "P < real_of_int q + 4 / 5 + 1 / 16"
    unfolding P_def using qb ob by simp
  with err have hi: "Z < real_of_int q + 1" by linarith
  have "\<lfloor>Z\<rfloor> = q" using lo hi by (intro floor_unique) simp_all
  with py_int_floor [OF fmul_nonneg [OF nn]] show ?thesis by (simp add: Z_def q_def)
qed

subsection \<open>Sizes\<close>

lemma findall_from_length:
  "length (findall_from cur s) \<le> length s + (if cur = [] then 0 else 1)"
proof (induction s arbitrary: cur)
  case Nil
  then show ?case by simp
next
  case (Cons c cs)
  show ?case
  proof (cases "is_word_char c")
    case True
    with Cons [of "cur @ [c]"] show ?thesis by simp
  next
    case False
    with Cons [of "[]"] show ?thesis by simp
  qed
qed

lemma findall_words_length: "length (findall_words s) \<le> length s"
  using findall_from_length [of "[]" s] by (simp add: findall_words_def)

lemma verb_score_le: "verb_score VERBS ws \<le> 10 * int (length ws)"
  by (simp add: verb_score_count)

lemma verb_score_text_bound:
  assumes "length t < 2 ^ 48"
  shows "verb_score VERBS (findall_words (lower t)) < 10 * 2 ^ 48"
proof -
  have "length (findall_words (lower t)) \<le> length t"
    using findall_words_length [of "lower t"] by (simp add: lower_def)
  with assms have "length (findall_words (lower t)) < 2 ^ 48" by simp
  then have "int (length (findall_words (lower t))) < int (2 ^ 48)"
    by (simp only: of_nat_less_iff)
  then have "int (length (findall_words (lower t))) < 2 ^ 48" by simp
  with verb_score_le [of VERBS "findall_words (lower t)"] show ?thesis by simp
qed

lemma floor_times_1_5: "\<lfloor>real_of_int b * 1.5\<rfloor> = 3 * b div 2"
proof -
  have "real_of_int b * 1.5 = real_of_int (3 * b) / real_of_int 2" by simp
  then show ?thesis by (simp only: floor_divide_of_int_eq)
qed

lemma floor_times_0_2: "\<lfloor>real_of_int b * 0.2\<rfloor> = b div 5"
proof -
  have "real_of_int b * 0.2 = real_of_int b / real_of_int 5" by simp
  then show ?thesis by (simp only: floor_divide_of_int_eq)
qed

lemma commercial_boost_nonneg: "0 \<le> b \<Longrightarrow> 0 \<le> commercial_boost c b"
  by (simp add: commercial_boost_def boost_bounds(1))

lemma commercial_boost_pos: "0 < b \<Longrightarrow> 0 < commercial_boost c b"
  by (simp add: commercial_boost_def boost_bounds(2))

lemma executive_shift_sum: "fst (executive_shift e (ov, br)) + snd (executive_shift e (ov, br)) = ov + br"
  by (simp add: executive_shift_def Let_def)

lemma executive_shift_nonneg:
  assumes "0 \<le> ov" and "0 \<le> br"
  shows "0 \<le> fst (executive_shift e (ov, br))" and "0 \<le> snd (executive_shift e (ov, br))"
  using assms shift_bounds(1,2) [OF assms(1)]
  by (simp_all add: executive_shift_def Let_def)

text \<open>What \<open>analyze_archetype\<close> returns, whether or not the total is 0.\<close>

lemma analyze_fields:
  "Builder (analyze_archetype t) = verb_score BUILDER_VERBS (findall_words (lower t))
   \<and> Operator (analyze_archetype t)
       = fst (executive_shift (any_in EXECUTIVE_KEYWORDS (lower t))
           (verb_score OPERATOR_VERBS (findall_words (lower t)),
            commercial_boost (any_in SALES_KEYWORDS (lower t))
              (verb_score BRIDGE_VERBS (findall_words (lower t)))))
   \<and> Bridge (analyze_archetype t)
       = snd (executive_shift (any_in EXECUTIVE_KEYWORDS (lower t))
           (verb_score OPERATOR_VERBS (findall_words (lower t)),
            commercial_boost (any_in SALES_KEYWORDS (lower t))
              (verb_score BRIDGE_VERBS (findall_words (lower t)))))"
proof -
  define b where "b = verb_score BUILDER_VERBS (findall_words (lower t))"
  define ov where "ov = verb_score OPERATOR_VERBS (findall_words (lower t))"
  define br where "br = commercial_boost (any_in SALES_KEYWORDS (lower t))
              (verb_score BRIDGE_VERBS (findall_words (lower t)))"
  define ob where "ob = executive_shift (any_in EXECUTIVE_KEYWORDS (lower t)) (ov, br)"
  have nn: "0 \<le> b" "0 \<le> ov" "0 \<le> br"
    by (simp_all add: b_def ov_def br_def verb_score_nonneg commercial_boost_nonneg)
  have obn: "0 \<le> fst ob" "0 \<le> snd ob"
    unfolding ob_def by (rule executive_shift_nonneg [OF nn(2,3)])+
  have a: "analyze_archetype t =
      (if b + fst ob + snd ob = 0 then \<lparr>Builder = 0, Operator = 0, Bridge = 0, Total = 1\<rparr>
       else \<lparr>Builder = b, Operator = fst ob, Bridge = snd ob, Total = b + fst ob + snd ob\<rparr>)"
    by (simp add: analyze_archetype_unfold Let_def b_def ov_def br_def ob_def)
  show ?thesis
  proof (cases "b + fst ob + snd ob = 0")
    case True
    with nn obn have "b = 0" "fst ob = 0" "snd ob = 0" by linarith+
    then have "Builder (analyze_archetype t) = b \<and> Operator (analyze_archetype t) = fst ob
               \<and> Bridge (analyze_archetype t) = snd ob"
      using True by (simp add: a)
    then show ?thesis by (simp only: b_def ob_def ov_def br_def)
  next
    case False
    then have "Builder (analyze_archetype t) = b \<and> Operator (analyze_archetype t) = fst ob
               \<and> Bridge (analyze_archetype t) = snd ob"
      by (simp add: a)
    then show ?thesis by (simp only: b_def ob_def ov_def br_def)
  qed
qed

subsection \<open>The ranking\<close>












subsection \<open>Claims about matching and the sentinel\<close>

lemma verb_score_filter:
  assumes "set VERBS \<subseteq> L"
  shows "verb_score VERBS (filter (\<lambda>w. w \<in> L) ws) = verb_score VERBS ws"
proof -
  have "filter (\<lambda>w. w \<in> set VERBS) (filter (\<lambda>w. w \<in> L) ws)
          = filter (\<lambda>w. w \<in> set VERBS) ws"
    using assms by (induction ws) auto
  then show ?thesis by (simp add: verb_score_count)
qed

lemma analyze_lexicon_tokens:
  assumes "any_in SALES_KEYWORDS (lower t) = any_in SALES_KEYWORDS (lower t')"
    and "any_in EXECUTIVE_KEYWORDS (lower t) = any_in EXECUTIVE_KEYWORDS (lower t')"
    and "filter (\<lambda>w. w \<in> set BUILDER_VERBS \<union> set OPERATOR_VERBS \<union> set BRIDGE_VERBS)
           (findall_words (lower t))
         = filter (\<lambda>w. w \<in> set BUILDER_VERBS \<union> set OPERATOR_VERBS \<union> set BRIDGE_VERBS)
           (findall_words (lower t'))"
  shows "analyze_archetype t = analyze_archetype t'"
proof -
  let ?L = "set BUILDER_VERBS \<union> set OPERATOR_VERBS \<union> set BRIDGE_VERBS"
  have eq: "verb_score V (findall_words (lower t)) = verb_score V (findall_words (lower t'))"
    if "set V \<subseteq> ?L" for V
  proof -
    have "verb_score V (findall_words (lower t))
            = verb_score V (filter (\<lambda>w. w \<in> ?L) (findall_words (lower t)))"
      by (rule verb_score_filter [OF that, symmetric])
    also have "\<dots> = verb_score V (filter (\<lambda>w. w \<in> ?L) (findall_words (lower t')))"
      by (simp only: assms(3))
    also have "\<dots> = verb_score V (findall_words (lower t'))"
      by (rule verb_score_filter [OF that])
    finally show ?thesis .
  qed
  have "verb_score BUILDER_VERBS (findall_words (lower t))
          = verb_score BUILDER_VERBS (findall_words (lower t'))"
    "verb_score OPERATOR_VERBS (findall_words (lower t))
          = verb_score OPERATOR_VERBS (findall_words (lower t'))"
    "verb_score BRIDGE_VERBS (findall_words (lower t))
          = verb_score BRIDGE_VERBS (findall_words (lower t'))"
    by (rule eq, blast)+
  then show ?thesis
    by (simp add: analyze_archetype_unfold Let_def assms(1,2))
qed

lemma analyze_rebuild_example:
  "analyze_archetype ''We rebuild engines''
     = \<lparr>Builder = 0, Operator = 0, Bridge = 0, Total = 1\<rparr>"
  by code_simp

text \<open>
  C7. Matching is whole-word. The tokens of a text are exactly its whole-word occurrences,
  and a base score is ten times the number of tokens equal to each keyword; so is the
  Builder score \<open>analyze_archetype\<close> returns. A token that is in no lexicon adds nothing to
  any score returned, whatever keyword it contains: two texts with the same context flags
  and the same lexicon tokens, in order, get the same result. In particular the keyword
  \<open>build\<close> is a proper substring of \<open>rebuild\<close>, \<open>rebuild\<close> is in no lexicon, and for every
  text where \<open>rebuild\<close> occurs as a word and \<open>build\<close> does not, \<open>rebuild\<close> is a token, no
  token counts for \<open>build\<close>, and the Builder score returned is what the lexicon without
  \<open>build\<close> gives. The text \<open>We rebuild engines\<close> scores zero in every category.
\<close>

theorem C7_whole_word_matching:
  "(w \<in> set (findall_words s) \<longleftrightarrow> occurs_whole w s)
   \<and> verb_score VERBS ws = (\<Sum>k\<leftarrow>remdups VERBS. 10 * int (count_list ws k))
   \<and> (w \<notin> set VERBS \<longrightarrow> verb_score VERBS (pre @ w # post) = verb_score VERBS (pre @ post))
   \<and> Builder (analyze_archetype t)
       = (\<Sum>k\<leftarrow>remdups BUILDER_VERBS. 10 * int (count_list (findall_words (lower t)) k))
   \<and> (any_in SALES_KEYWORDS (lower t) = any_in SALES_KEYWORDS (lower t')
       \<and> any_in EXECUTIVE_KEYWORDS (lower t) = any_in EXECUTIVE_KEYWORDS (lower t')
       \<and> filter (\<lambda>w. w \<in> set BUILDER_VERBS \<union> set OPERATOR_VERBS \<union> set BRIDGE_VERBS)
            (findall_words (lower t))
          = filter (\<lambda>w. w \<in> set BUILDER_VERBS \<union> set OPERATOR_VERBS \<union> set BRIDGE_VERBS)
            (findall_words (lower t'))
       \<longrightarrow> analyze_archetype t = analyze_archetype t')
   \<and> str_in ''build'' ''rebuild''
   \<and> ''rebuild'' \<notin> set BUILDER_VERBS \<union> set OPERATOR_VERBS \<union> set BRIDGE_VERBS
   \<and> (occurs_whole ''rebuild'' (lower t) \<and> \<not> occurs_whole ''build'' (lower t) \<longrightarrow>
        ''rebuild'' \<in> set (findall_words (lower t))
        \<and> count_list (findall_words (lower t)) ''build'' = 0
        \<and> verb_score BUILDER_VERBS (findall_words (lower t))
            = verb_score (removeAll ''build'' BUILDER_VERBS) (findall_words (lower t))
        \<and> Builder (analyze_archetype t)
            = verb_score (removeAll ''build'' BUILDER_VERBS) (findall_words (lower t)))
   \<and> analyze_archetype ''We rebuild engines''
       = \<lparr>Builder = 0, Operator = 0, Bridge = 0, Total = 1\<rparr>"
proof -
  have a: "w \<in> set (findall_words s) \<longleftrightarrow> occurs_whole w s"
    using token_occurs occurs_token by blast
  have b: "str_in ''build'' ''rebuild''" by simp
  have c: "''rebuild'' \<notin> set BUILDER_VERBS \<union> set OPERATOR_VERBS \<union> set BRIDGE_VERBS"
    by (simp add: BUILDER_VERBS_def OPERATOR_VERBS_def BRIDGE_VERBS_def)
  have bu: "Builder (analyze_archetype t) = verb_score BUILDER_VERBS (findall_words (lower t))"
    using analyze_fields [of t] by simp
  have e: "Builder (analyze_archetype t)
       = (\<Sum>k\<leftarrow>remdups BUILDER_VERBS. 10 * int (count_list (findall_words (lower t)) k))"
    by (simp only: bu verb_score_by_keyword)
  have d: "occurs_whole ''rebuild'' (lower t) \<and> \<not> occurs_whole ''build'' (lower t) \<longrightarrow>
        ''rebuild'' \<in> set (findall_words (lower t))
        \<and> count_list (findall_words (lower t)) ''build'' = 0
        \<and> verb_score BUILDER_VERBS (findall_words (lower t))
            = verb_score (removeAll ''build'' BUILDER_VERBS) (findall_words (lower t))
        \<and> Builder (analyze_archetype t)
            = verb_score (removeAll ''build'' BUILDER_VERBS) (findall_words (lower t))"
  proof
    assume h: "occurs_whole ''rebuild'' (lower t) \<and> \<not> occurs_whole ''build'' (lower t)"
    then have n: "''build'' \<notin> set (findall_words (lower t))"
      using token_occurs by blast
    from h have "''rebuild'' \<in> set (findall_words (lower t))"
      using occurs_token by blast
    with n show "''rebuild'' \<in> set (findall_words (lower t))
        \<and> count_list (findall_words (lower t)) ''build'' = 0
        \<and> verb_score BUILDER_VERBS (findall_words (lower t))
            = verb_score (removeAll ''build'' BUILDER_VERBS) (findall_words (lower t))
        \<and> Builder (analyze_archetype t)
            = verb_score (removeAll ''build'' BUILDER_VERBS) (findall_words (lower t))"
      by (simp add: bu count_list_zero verb_score_removeAll)
  qed
  have f: "any_in SALES_KEYWORDS (lower t) = any_in SALES_KEYWORDS (lower t')
       \<and> any_in EXECUTIVE_KEYWORDS (lower t) = any_in EXECUTIVE_KEYWORDS (lower t')
       \<and> filter (\<lambda>w. w \<in> set BUILDER_VERBS \<union> set OPERATOR_VERBS \<union> set BRIDGE_VERBS)
            (findall_words (lower t))
          = filter (\<lambda>w. w \<in> set BUILDER_VERBS \<union> set OPERATOR_VERBS \<union> set BRIDGE_VERBS)
            (findall_words (lower t'))
       \<longrightarrow> analyze_archetype t = analyze_archetype t'"
    using analyze_lexicon_tokens [of t t'] by blast
  show ?thesis
    using a b c d e f verb_score_by_keyword [of VERBS ws] verb_score_drop [of w VERBS pre post]
      analyze_rebuild_example
    by blast
qed

theorem C7_whole_word_matching_witness:
  "findall_words (lower ''We rebuild engines'') = [''we'', ''rebuild'', ''engines'']
   \<and> occurs_whole ''rebuild'' (lower ''We rebuild engines'')
   \<and> \<not> occurs_whole ''build'' (lower ''We rebuild engines'')
   \<and> ''rebuild'' \<notin> set BUILDER_VERBS
   \<and> verb_score BUILDER_VERBS ([''we''] @ ''rebuild'' # [''engines''])
       = verb_score BUILDER_VERBS ([''we''] @ [''engines''])
   \<and> count_list (findall_words (lower ''We rebuild engines'')) ''build'' = 0
   \<and> Builder (analyze_archetype ''We rebuild engines'')
       = verb_score (removeAll ''build'' BUILDER_VERBS)
           (findall_words (lower ''We rebuild engines''))
   \<and> Builder (analyze_archetype ''We rebuild engines'') = 0
   \<and> analyze_archetype ''We rebuild engines''
       = \<lparr>Builder = 0, Operator = 0, Bridge = 0, Total = 1\<rparr>
   \<and> Builder (analyze_archetype ''Rebuild it, then code'') = 10
   \<and> analyze_archetype ''Rebuild it, then code'' = analyze_archetype ''It then code''"
proof -
  have t: "findall_words (lower ''We rebuild engines'') = [''we'', ''rebuild'', ''engines'']"
    by code_simp
  have i: "''rebuild'' \<in> set (findall_words (lower ''We rebuild engines''))"
    and n: "''build'' \<notin> set (findall_words (lower ''We rebuild engines''))"
    by (simp_all add: t)
  have o: "occurs_whole ''rebuild'' (lower ''We rebuild engines'')"
    using i C7_whole_word_matching [where w = "''rebuild''" and s = "lower ''We rebuild engines''"]
    by blast
  have no: "\<not> occurs_whole ''build'' (lower ''We rebuild engines'')"
    using n C7_whole_word_matching [where w = "''build''" and s = "lower ''We rebuild engines''"]
    by blast
  have m: "''rebuild'' \<notin> set BUILDER_VERBS"
    using C7_whole_word_matching [where t = "''x''"] by blast
  have dr: "verb_score BUILDER_VERBS ([''we''] @ ''rebuild'' # [''engines''])
       = verb_score BUILDER_VERBS ([''we''] @ [''engines''])"
    using m C7_whole_word_matching [where w = "''rebuild''" and VERBS = BUILDER_VERBS
        and pre = "[''we'']" and post = "[''engines'']"]
    by blast
  have r: "count_list (findall_words (lower ''We rebuild engines'')) ''build'' = 0
   \<and> Builder (analyze_archetype ''We rebuild engines'')
       = verb_score (removeAll ''build'' BUILDER_VERBS)
           (findall_words (lower ''We rebuild engines''))"
    using o no C7_whole_word_matching [where t = "''We rebuild engines''"]
    by blast
  have z: "analyze_archetype ''We rebuild engines''
       = \<lparr>Builder = 0, Operator = 0, Bridge = 0, Total = 1\<rparr>"
    using C7_whole_word_matching [where t = "''x''"] by blast
  then have z0: "Builder (analyze_archetype ''We rebuild engines'') = 0" by simp
  have fl: "any_in SALES_KEYWORDS (lower ''Rebuild it, then code'')
              = any_in SALES_KEYWORDS (lower ''It then code'')
       \<and> any_in EXECUTIVE_KEYWORDS (lower ''Rebuild it, then code'')
              = any_in EXECUTIVE_KEYWORDS (lower ''It then code'')
       \<and> filter (\<lambda>w. w \<in> set BUILDER_VERBS \<union> set OPERATOR_VERBS \<union> set BRIDGE_VERBS)
            (findall_words (lower ''Rebuild it, then code''))
          = filter (\<lambda>w. w \<in> set BUILDER_VERBS \<union> set OPERATOR_VERBS \<union> set BRIDGE_VERBS)
            (findall_words (lower ''It then code''))"
    by code_simp
  have same: "analyze_archetype ''Rebuild it, then code'' = analyze_archetype ''It then code''"
    using fl C7_whole_word_matching
      [where t = "''Rebuild it, then code''" and t' = "''It then code''"]
    by blast
  have ten: "Builder (analyze_archetype ''It then code'') = 10" by code_simp
  with same have ten': "Builder (analyze_archetype ''Rebuild it, then code'') = 10" by simp
  show ?thesis using t o no m dr r z z0 ten' same by blast
qed

text \<open>
  C4. A text none of whose tokens is in a lexicon, the empty text among them, scores the
  sentinel: three zeros and Total 1. Total is never 0, for any text, so
  \<open>get_archetype_percentages\<close> never divides by zero on a result of \<open>analyze_archetype\<close>. On
  the sentinel it returns 0 for every category, gap 0 and hybrid true.
\<close>

theorem C4_zero_match_sentinel:
  "((\<forall>w \<in> set (findall_words (lower text)).
        w \<notin> set BUILDER_VERBS \<and> w \<notin> set OPERATOR_VERBS \<and> w \<notin> set BRIDGE_VERBS)
      \<longrightarrow> analyze_archetype text = \<lparr>Builder = 0, Operator = 0, Bridge = 0, Total = 1\<rparr>)
   \<and> analyze_archetype [] = \<lparr>Builder = 0, Operator = 0, Bridge = 0, Total = 1\<rparr>
   \<and> Total (analyze_archetype text) \<noteq> 0
   \<and> (\<exists>r. get_archetype_percentages (analyze_archetype text) = Inr r)
   \<and> get_archetype_percentages \<lparr>Builder = 0, Operator = 0, Bridge = 0, Total = 1\<rparr>
       = Inr ([(''Builder'', 0), (''Operator'', 0), (''Bridge'', 0)],
              [(''Builder'', 0), (''Operator'', 0), (''Bridge'', 0)], True)
   \<and> (get_archetype_percentages \<lparr>Builder = 0, Operator = 0, Bridge = 0, Total = 1\<rparr>
         = Inr (pcts, sorted_pcts, is_hybrid)
       \<longrightarrow> map snd pcts = [0, 0, 0] \<and> snd (sorted_pcts ! 0) - snd (sorted_pcts ! 1) = 0
           \<and> is_hybrid)"
proof -
  have e: "analyze_archetype [] = \<lparr>Builder = 0, Operator = 0, Bridge = 0, Total = 1\<rparr>"
    by (rule analyze_zero_hits) (simp add: lower_def findall_words_def)
  show ?thesis
    using analyze_zero_hits [of "text"] e analyze_Total_nonzero [of "text"]
      percentages_defined [OF analyze_Total_nonzero [of "text"]] sentinel_percentages
    by auto
qed

theorem C4_zero_match_sentinel_witness:
  "findall_words (lower ''Hello, world 42'') = [''hello'', ''world'', ''42'']
   \<and> analyze_archetype ''Hello, world 42'' = \<lparr>Builder = 0, Operator = 0, Bridge = 0, Total = 1\<rparr>
   \<and> get_archetype_percentages (analyze_archetype ''Hello, world 42'')
       = Inr ([(''Builder'', 0), (''Operator'', 0), (''Bridge'', 0)],
              [(''Builder'', 0), (''Operator'', 0), (''Bridge'', 0)], True)"
proof -
  have t: "findall_words (lower ''Hello, world 42'') = [''hello'', ''world'', ''42'']"
    by code_simp
  have h: "\<forall>w \<in> set (findall_words (lower ''Hello, world 42'')).
        w \<notin> set BUILDER_VERBS \<and> w \<notin> set OPERATOR_VERBS \<and> w \<notin> set BRIDGE_VERBS"
    by (simp add: t BUILDER_VERBS_def OPERATOR_VERBS_def BRIDGE_VERBS_def)
  from C4_zero_match_sentinel [of "''Hello, world 42''"] h t show ?thesis by simp
qed

subsection \<open>Claims about ranking and base scores\<close>

lemma analyze_no_flags:
  assumes "\<not> any_in SALES_KEYWORDS (lower txt)" and "\<not> any_in EXECUTIVE_KEYWORDS (lower txt)"
  shows "Builder (analyze_archetype txt) = verb_score BUILDER_VERBS (findall_words (lower txt))
       \<and> Operator (analyze_archetype txt) = verb_score OPERATOR_VERBS (findall_words (lower txt))
       \<and> Bridge (analyze_archetype txt) = verb_score BRIDGE_VERBS (findall_words (lower txt))"
proof -
  let ?b = "verb_score BUILDER_VERBS (findall_words (lower txt))"
  let ?o = "verb_score OPERATOR_VERBS (findall_words (lower txt))"
  let ?r = "verb_score BRIDGE_VERBS (findall_words (lower txt))"
  have nn: "0 \<le> ?b" "0 \<le> ?o" "0 \<le> ?r" by (rule verb_score_nonneg)+
  show ?thesis
  proof (cases "?b + ?o + ?r = 0")
    case True
    with nn have "?b = 0" "?o = 0" "?r = 0" by linarith+
    then show ?thesis
      using assms
      by (simp add: analyze_archetype_unfold Let_def commercial_boost_off executive_shift_off)
  next
    case False
    then show ?thesis
      using assms
      by (simp add: analyze_archetype_unfold Let_def commercial_boost_off executive_shift_off)
  qed
qed



lemma percentages_30_0_0:
  "get_archetype_percentages \<lparr>Builder = 30, Operator = 0, Bridge = 0, Total = 30\<rparr>
     = Inr ([(''Builder'', 100), (''Operator'', 0), (''Bridge'', 0)],
            [(''Builder'', 100), (''Operator'', 0), (''Bridge'', 0)], False)"
  by code_simp

lemma analyze_build_example:
  "analyze_archetype ''I build and build and build products''
     = \<lparr>Builder = 30, Operator = 0, Bridge = 0, Total = 30\<rparr>"
  by code_simp



text \<open>
  C1, as the code has it. A token is a maximal run of word characters of the lower-cased
  text, and the underscore is a word character. Each base score is ten times the number of
  tokens, repeats included, that are in the category's list; with no context phrase in the
  text these are the scores returned. The text \<open>I build and build and build products\<close>
  scores Builder 30, Operator 0, Bridge 0, Total 30, and resolves to 100, 0, 0 with
  Builder first, Operator second, gap 100, not hybrid.
\<close>

theorem C1_base_scores:
  "verb_score BUILDER_VERBS (findall_words (lower txt))
     = 10 * int (length (filter (\<lambda>w. w \<in> set BUILDER_VERBS) (runs is_word_char (lower txt))))
   \<and> verb_score OPERATOR_VERBS (findall_words (lower txt))
     = 10 * int (length (filter (\<lambda>w. w \<in> set OPERATOR_VERBS) (runs is_word_char (lower txt))))
   \<and> verb_score BRIDGE_VERBS (findall_words (lower txt))
     = 10 * int (length (filter (\<lambda>w. w \<in> set BRIDGE_VERBS) (runs is_word_char (lower txt))))
   \<and> (\<not> any_in SALES_KEYWORDS (lower txt) \<and> \<not> any_in EXECUTIVE_KEYWORDS (lower txt) \<longrightarrow>
        Builder (analyze_archetype txt)
          = 10 * int (length (filter (\<lambda>w. w \<in> set BUILDER_VERBS) (runs is_word_char (lower txt))))
        \<and> Operator (analyze_archetype txt)
          = 10 * int (length (filter (\<lambda>w. w \<in> set OPERATOR_VERBS) (runs is_word_char (lower txt))))
        \<and> Bridge (analyze_archetype txt)
          = 10 * int (length (filter (\<lambda>w. w \<in> set BRIDGE_VERBS) (runs is_word_char (lower txt)))))
   \<and> analyze_archetype ''I build and build and build products''
       = \<lparr>Builder = 30, Operator = 0, Bridge = 0, Total = 30\<rparr>
   \<and> get_archetype_percentages (analyze_archetype ''I build and build and build products'')
       = Inr ([(''Builder'', 100), (''Operator'', 0), (''Bridge'', 0)],
              [(''Builder'', 100), (''Operator'', 0), (''Bridge'', 0)], False)"
  using analyze_no_flags [of "txt"]
  by (simp add: verb_score_count findall_words_runs analyze_build_example percentages_30_0_0)

theorem C1_base_scores_witness:
  "\<not> any_in SALES_KEYWORDS (lower ''We build, and manage and WIN'')
   \<and> \<not> any_in EXECUTIVE_KEYWORDS (lower ''We build, and manage and WIN'')
   \<and> runs is_word_char (lower ''We build, and manage and WIN'')
       = [''we'', ''build'', ''and'', ''manage'', ''and'', ''win'']
   \<and> Builder (analyze_archetype ''We build, and manage and WIN'') = 10
   \<and> Operator (analyze_archetype ''We build, and manage and WIN'') = 10
   \<and> Bridge (analyze_archetype ''We build, and manage and WIN'') = 10"
proof -
  have h: "\<not> any_in SALES_KEYWORDS (lower ''We build, and manage and WIN'')
   \<and> \<not> any_in EXECUTIVE_KEYWORDS (lower ''We build, and manage and WIN'')"
    by code_simp
  have t: "runs is_word_char (lower ''We build, and manage and WIN'')
       = [''we'', ''build'', ''and'', ''manage'', ''and'', ''win'']"
    by code_simp
  have c: "10 * int (length (filter (\<lambda>w. w \<in> set BUILDER_VERBS)
              [''we'', ''build'', ''and'', ''manage'', ''and'', ''win''])) = 10"
    "10 * int (length (filter (\<lambda>w. w \<in> set OPERATOR_VERBS)
              [''we'', ''build'', ''and'', ''manage'', ''and'', ''win''])) = 10"
    "10 * int (length (filter (\<lambda>w. w \<in> set BRIDGE_VERBS)
              [''we'', ''build'', ''and'', ''manage'', ''and'', ''win''])) = 10"
    by code_simp+
  from C1_base_scores [of "''We build, and manage and WIN''"] h
  have "Builder (analyze_archetype ''We build, and manage and WIN'')
          = 10 * int (length (filter (\<lambda>w. w \<in> set BUILDER_VERBS)
              (runs is_word_char (lower ''We build, and manage and WIN''))))
        \<and> Operator (analyze_archetype ''We build, and manage and WIN'')
          = 10 * int (length (filter (\<lambda>w. w \<in> set OPERATOR_VERBS)
              (runs is_word_char (lower ''We build, and manage and WIN''))))
        \<and> Bridge (analyze_archetype ''We build, and manage and WIN'')
          = 10 * int (length (filter (\<lambda>w. w \<in> set BRIDGE_VERBS)
              (runs is_word_char (lower ''We build, and manage and WIN''))))"
    by blast
  with h t c show ?thesis by (simp only: simp_thms)
qed

theorem C1_alphanumeric_runs_counterexample:
  "findall_words (lower ''build_code'') = [''build_code'']
   \<and> verb_score BUILDER_VERBS (findall_words (lower ''build_code'')) = 0
   \<and> Builder (analyze_archetype ''build_code'') = 0
   \<and> runs is_alnum_char (lower ''build_code'') = [''build'', ''code'']
   \<and> 10 * int (length (filter (\<lambda>w. w \<in> set BUILDER_VERBS)
                          (runs is_alnum_char (lower ''build_code'')))) = 20"
  by code_simp

subsection \<open>Claims about the two adjustments\<close>

text \<open>
  C2. For a text of fewer than \<open>2 ^ 48\<close> characters (far beyond what a machine holds; the
  bound keeps every score exactly representable as a double): if some commercial phrase
  occurs in the lower-cased text as a substring, the Bridge score after adjustment A is the
  floor of 1.5 times the Bridge base score; if none occurs, it is the base score. Without
  an executive phrase this is the Bridge score returned.
\<close>

theorem C2_commercial_boost:
  assumes "length t < 2 ^ 48"
  shows "commercial_boost (any_in SALES_KEYWORDS (lower t))
             (verb_score BRIDGE_VERBS (findall_words (lower t)))
           = (if \<exists>k \<in> set SALES_KEYWORDS. \<exists>p q. lower t = p @ k @ q
              then \<lfloor>real_of_int (verb_score BRIDGE_VERBS (findall_words (lower t))) * 1.5\<rfloor>
              else verb_score BRIDGE_VERBS (findall_words (lower t)))
       \<and> (\<not> any_in EXECUTIVE_KEYWORDS (lower t) \<longrightarrow>
            Bridge (analyze_archetype t)
              = (if \<exists>k \<in> set SALES_KEYWORDS. \<exists>p q. lower t = p @ k @ q
                 then \<lfloor>real_of_int (verb_score BRIDGE_VERBS (findall_words (lower t))) * 1.5\<rfloor>
                 else verb_score BRIDGE_VERBS (findall_words (lower t))))"
proof -
  define B where "B = verb_score BRIDGE_VERBS (findall_words (lower t))"
  have B0: "0 \<le> B" by (simp add: B_def verb_score_nonneg)
  have "B < 10 * 2 ^ 48" unfolding B_def by (rule verb_score_text_bound [OF assms])
  then have B3: "3 * B < 2 ^ 53" by simp
  have boost: "commercial_boost (any_in SALES_KEYWORDS (lower t)) B
           = (if \<exists>k \<in> set SALES_KEYWORDS. \<exists>p q. lower t = p @ k @ q
              then \<lfloor>real_of_int B * 1.5\<rfloor> else B)"
    by (simp only: commercial_boost_def boost_exact [OF B0 B3] floor_times_1_5 any_in_iff)
  have "\<not> any_in EXECUTIVE_KEYWORDS (lower t) \<longrightarrow>
          Bridge (analyze_archetype t) = commercial_boost (any_in SALES_KEYWORDS (lower t)) B"
    using analyze_fields [of t] by (simp add: B_def executive_shift_off)
  with boost show ?thesis by (simp only: B_def)
qed

theorem C2_commercial_boost_witness:
  "length ''Sales lead: I negotiate and close.'' < 2 ^ 48
   \<and> any_in SALES_KEYWORDS (lower ''Sales lead: I negotiate and close.'')
   \<and> \<not> any_in EXECUTIVE_KEYWORDS (lower ''Sales lead: I negotiate and close.'')
   \<and> verb_score BRIDGE_VERBS (findall_words (lower ''Sales lead: I negotiate and close.'')) = 20
   \<and> commercial_boost (any_in SALES_KEYWORDS (lower ''Sales lead: I negotiate and close.''))
        (verb_score BRIDGE_VERBS (findall_words (lower ''Sales lead: I negotiate and close.''))) = 30
   \<and> Bridge (analyze_archetype ''Sales lead: I negotiate and close.'') = 30"
proof -
  have len: "length ''Sales lead: I negotiate and close.'' < 2 ^ 48" by simp
  have c: "any_in SALES_KEYWORDS (lower ''Sales lead: I negotiate and close.'')"
    and e: "\<not> any_in EXECUTIVE_KEYWORDS (lower ''Sales lead: I negotiate and close.'')"
    and b: "verb_score BRIDGE_VERBS (findall_words (lower ''Sales lead: I negotiate and close.'')) = 20"
    by code_simp+
  have ex: "\<exists>k \<in> set SALES_KEYWORDS. \<exists>p q. lower ''Sales lead: I negotiate and close.'' = p @ k @ q"
    using c by (simp only: any_in_iff)
  have f: "\<lfloor>real_of_int 20 * 1.5\<rfloor> = (30::int)" by simp
  from C2_commercial_boost [OF len] ex e b f
  have "commercial_boost (any_in SALES_KEYWORDS (lower ''Sales lead: I negotiate and close.''))
        (verb_score BRIDGE_VERBS (findall_words (lower ''Sales lead: I negotiate and close.''))) = 30
   \<and> Bridge (analyze_archetype ''Sales lead: I negotiate and close.'') = 30"
    by (simp only: if_True simp_thms)
  with len c e b show ?thesis by (simp only: simp_thms)
qed

text \<open>
  C3. For a text of fewer than \<open>2 ^ 48\<close> characters in whose lower-cased form an executive
  phrase occurs as a substring: with \<open>ov\<close> the Operator base score (adjustment A leaves it
  alone) and \<open>br\<close> the Bridge score after adjustment A, the scores returned are Operator
  \<open>ov - floor (ov * 0.2)\<close> and Bridge \<open>br + floor (ov * 0.2)\<close>, both with the same \<open>ov\<close>, and
  the Builder score returned is the Builder base score.
\<close>

theorem C3_executive_shift:
  fixes t :: string
  defines "ov \<equiv> verb_score OPERATOR_VERBS (findall_words (lower t))"
    and "br \<equiv> commercial_boost (any_in SALES_KEYWORDS (lower t))
                  (verb_score BRIDGE_VERBS (findall_words (lower t)))"
  assumes "length t < 2 ^ 48"
    and "\<exists>k \<in> set EXECUTIVE_KEYWORDS. \<exists>p q. lower t = p @ k @ q"
  shows "Operator (analyze_archetype t) = ov - \<lfloor>real_of_int ov * 0.2\<rfloor>
       \<and> Bridge (analyze_archetype t) = br + \<lfloor>real_of_int ov * 0.2\<rfloor>
       \<and> Builder (analyze_archetype t) = verb_score BUILDER_VERBS (findall_words (lower t))"
proof -
  have o0: "0 \<le> ov" by (simp add: ov_def verb_score_nonneg)
  have "ov < 10 * 2 ^ 48" unfolding ov_def by (rule verb_score_text_bound [OF assms(3)])
  then have o52: "ov < 2 ^ 52" by simp
  have ex: "any_in EXECUTIVE_KEYWORDS (lower t)"
    using assms(4) by (simp only: any_in_iff)
  have sh: "executive_shift True (ov, br) = (ov - ov div 5, br + ov div 5)"
    by (simp add: executive_shift_def Let_def shift_exact [OF o0 o52])
  from analyze_fields [of t]
  have bu: "Builder (analyze_archetype t) = verb_score BUILDER_VERBS (findall_words (lower t))"
    and "Operator (analyze_archetype t)
           = fst (executive_shift (any_in EXECUTIVE_KEYWORDS (lower t)) (ov, br))"
    and "Bridge (analyze_archetype t)
           = snd (executive_shift (any_in EXECUTIVE_KEYWORDS (lower t)) (ov, br))"
    by (simp_all add: ov_def br_def)
  with ex sh have "Operator (analyze_archetype t) = ov - ov div 5"
    "Bridge (analyze_archetype t) = br + ov div 5" by simp_all
  with bu show ?thesis unfolding floor_times_0_2 by simp
qed

theorem C3_executive_shift_witness:
  "length ''VP Ops. Manage, run, scale, track, audit; win.'' < 2 ^ 48
   \<and> any_in EXECUTIVE_KEYWORDS (lower ''VP Ops. Manage, run, scale, track, audit; win.'')
   \<and> verb_score OPERATOR_VERBS (findall_words (lower ''VP Ops. Manage, run, scale, track, audit; win.'')) = 50
   \<and> commercial_boost (any_in SALES_KEYWORDS (lower ''VP Ops. Manage, run, scale, track, audit; win.''))
        (verb_score BRIDGE_VERBS (findall_words (lower ''VP Ops. Manage, run, scale, track, audit; win.''))) = 10
   \<and> Operator (analyze_archetype ''VP Ops. Manage, run, scale, track, audit; win.'') = 40
   \<and> Bridge (analyze_archetype ''VP Ops. Manage, run, scale, track, audit; win.'') = 20
   \<and> Builder (analyze_archetype ''VP Ops. Manage, run, scale, track, audit; win.'') = 0"
proof -
  have len: "length ''VP Ops. Manage, run, scale, track, audit; win.'' < 2 ^ 48" by simp
  have e: "any_in EXECUTIVE_KEYWORDS (lower ''VP Ops. Manage, run, scale, track, audit; win.'')"
    and ov: "verb_score OPERATOR_VERBS (findall_words (lower ''VP Ops. Manage, run, scale, track, audit; win.'')) = 50"
    and br: "commercial_boost (any_in SALES_KEYWORDS (lower ''VP Ops. Manage, run, scale, track, audit; win.''))
        (verb_score BRIDGE_VERBS (findall_words (lower ''VP Ops. Manage, run, scale, track, audit; win.''))) = 10"
    and bu: "verb_score BUILDER_VERBS (findall_words (lower ''VP Ops. Manage, run, scale, track, audit; win.'')) = 0"
    by code_simp+
  have ex: "\<exists>k \<in> set EXECUTIVE_KEYWORDS. \<exists>p q.
              lower ''VP Ops. Manage, run, scale, track, audit; win.'' = p @ k @ q"
    using e by (simp only: any_in_iff)
  have f: "50 - \<lfloor>real_of_int 50 * 0.2\<rfloor> = (40::int)" "10 + \<lfloor>real_of_int 50 * 0.2\<rfloor> = (20::int)"
    by simp_all
  from C3_executive_shift [OF len ex] ov br bu f
  have "Operator (analyze_archetype ''VP Ops. Manage, run, scale, track, audit; win.'') = 40
   \<and> Bridge (analyze_archetype ''VP Ops. Manage, run, scale, track, audit; win.'') = 20
   \<and> Builder (analyze_archetype ''VP Ops. Manage, run, scale, track, audit; win.'') = 0"
    by (simp only: simp_thms)
  with len e ov br show ?thesis by (simp only: simp_thms)
qed

subsection \<open>Adding a keyword to a text\<close>

lemma lower_append: "lower (a @ b) = lower a @ lower b"
  by (simp add: lower_def)

lemma lower_Cons: "lower (c # s) = lower_char c # lower s"
  by (simp add: lower_def)

lemma word_codes_shift:
  fixes n :: nat
  assumes "(65 \<le> n \<and> n \<le> 90) \<or> (192 \<le> n \<and> n \<le> 222 \<and> n \<noteq> 215)"
  shows "((48 \<le> n \<and> n \<le> 57) \<or> (65 \<le> n \<and> n \<le> 90) \<or> n = 95 \<or> (97 \<le> n \<and> n \<le> 122)
         \<or> n = 170 \<or> n = 178 \<or> n = 179 \<or> n = 181 \<or> n = 185 \<or> n = 186
         \<or> (188 \<le> n \<and> n \<le> 190) \<or> (192 \<le> n \<and> n \<le> 214)
         \<or> (216 \<le> n \<and> n \<le> 246) \<or> 248 \<le> n)
       \<and> ((48 \<le> n + 32 \<and> n + 32 \<le> 57) \<or> (65 \<le> n + 32 \<and> n + 32 \<le> 90) \<or> n + 32 = 95
         \<or> (97 \<le> n + 32 \<and> n + 32 \<le> 122)
         \<or> n + 32 = 170 \<or> n + 32 = 178 \<or> n + 32 = 179 \<or> n + 32 = 181 \<or> n + 32 = 185
         \<or> n + 32 = 186
         \<or> (188 \<le> n + 32 \<and> n + 32 \<le> 190) \<or> (192 \<le> n + 32 \<and> n + 32 \<le> 214)
         \<or> (216 \<le> n + 32 \<and> n + 32 \<le> 246) \<or> 248 \<le> n + 32)"
  using assms by presburger

lemma is_word_lower: "is_word_char (lower_char c) = is_word_char c"
proof -
  define n where "n = (of_char c :: nat)"
  show ?thesis
  proof (cases "(65 \<le> n \<and> n \<le> 90) \<or> (192 \<le> n \<and> n \<le> 222 \<and> n \<noteq> 215)")
    case True
    have l: "lower_char c = char_of (n + 32)"
      unfolding lower_char_def Let_def n_def [symmetric] using True by (simp only: if_True)
    have "n + 32 < 256" using True by linarith
    then have "(n + 32) mod 256 = n + 32" by simp
    then have oc: "(of_char (char_of (n + 32) :: char) :: nat) = n + 32"
      by (simp only: of_char_of)
    have "is_word_char (char_of (n + 32))"
      unfolding is_word_char_def Let_def oc using word_codes_shift [OF True] by blast
    moreover have "is_word_char c"
      unfolding is_word_char_def Let_def n_def [symmetric]
      using word_codes_shift [OF True] by blast
    ultimately show ?thesis by (simp only: l)
  next
    case False
    have "lower_char c = c"
      unfolding lower_char_def Let_def n_def [symmetric] using False by (simp only: if_False)
    then show ?thesis by simp
  qed
qed

lemma builder_keywords:
  "list_all (\<lambda>k. k \<noteq> [] \<and> list_all is_word_char k \<and> lower k = k) BUILDER_VERBS"
  by code_simp

lemma tokens_append_word:
  assumes "\<not> is_word_char c" and "k \<noteq> []" and "list_all is_word_char k" and "lower k = k"
  shows "findall_words (lower (t @ c # k)) = findall_words (lower t) @ [k]"
proof -
  have sep: "\<not> is_word_char (lower_char c)" using assms(1) by (simp add: is_word_lower)
  have "lower (t @ c # k) = lower t @ lower_char c # k"
    by (simp add: lower_append lower_Cons assms(4))
  moreover have "findall_words k = [k]"
    using assms(2,3) by (simp add: findall_words_def findall_from_word)
  ultimately show ?thesis by (simp add: findall_words_sep [OF sep])
qed

lemma tokens_prepend_word:
  assumes "\<not> is_word_char c" and "k \<noteq> []" and "list_all is_word_char k" and "lower k = k"
  shows "findall_words (lower (k @ c # t)) = k # findall_words (lower t)"
proof -
  have sep: "\<not> is_word_char (lower_char c)" using assms(1) by (simp add: is_word_lower)
  have "lower (k @ c # t) = k @ lower_char c # lower t"
    by (simp add: lower_append lower_Cons assms(4))
  moreover have "findall_words k = [k]"
    using assms(2,3) by (simp add: findall_words_def findall_from_word)
  ultimately show ?thesis by (simp add: findall_words_sep [OF sep])
qed

lemma tokens_split:
  assumes "\<not> is_word_char c"
  shows "findall_words (lower (t1 @ c # t2)) = findall_words (lower t1) @ findall_words (lower t2)"
proof -
  have sep: "\<not> is_word_char (lower_char c)" using assms by (simp add: is_word_lower)
  have "lower (t1 @ c # t2) = lower t1 @ lower_char c # lower t2"
    by (simp add: lower_append lower_Cons)
  then show ?thesis by (simp add: findall_words_sep [OF sep])
qed

lemma analyze_Builder:
  "Builder (analyze_archetype t) = verb_score BUILDER_VERBS (findall_words (lower t))"
  using analyze_fields [of t] by simp

text \<open>
  C9. Let \<open>k\<close> be a keyword of the Builder lexicon and \<open>c\<close>, \<open>c'\<close> characters that are not
  word characters (a space, say). Appending \<open>c\<close> and \<open>k\<close> to a text, putting \<open>k\<close> and \<open>c\<close> in
  front of it, or inserting \<open>k\<close> and \<open>c'\<close> after a separator \<open>c\<close> inside it, leaves every
  other token as it is and raises the Builder score returned by exactly 10: the Builder
  score never decreases.
\<close>

theorem C9_builder_monotone:
  assumes "k \<in> set BUILDER_VERBS" and "\<not> is_word_char c" and "\<not> is_word_char c'"
  shows "Builder (analyze_archetype t) \<le> Builder (analyze_archetype (t @ c # k))
       \<and> Builder (analyze_archetype (t @ c # k)) = Builder (analyze_archetype t) + 10
       \<and> Builder (analyze_archetype (k @ c # t)) = Builder (analyze_archetype t) + 10
       \<and> Builder (analyze_archetype (t1 @ c # k @ c' # t2))
           = Builder (analyze_archetype (t1 @ c # t2)) + 10"
proof -
  from builder_keywords assms(1)
  have k: "k \<noteq> []" "list_all is_word_char k" "lower k = k"
    by (simp_all add: list_all_iff)
  have a: "findall_words (lower (t @ c # k)) = findall_words (lower t) @ [k]"
    by (rule tokens_append_word [OF assms(2) k])
  have p: "findall_words (lower (k @ c # t)) = k # findall_words (lower t)"
    by (rule tokens_prepend_word [OF assms(2) k])
  have "findall_words (lower (t1 @ c # (k @ c' # t2)))
          = findall_words (lower t1) @ findall_words (lower (k @ c' # t2))"
    by (rule tokens_split [OF assms(2)])
  then have i: "findall_words (lower (t1 @ c # k @ c' # t2))
          = findall_words (lower t1) @ k # findall_words (lower t2)"
    by (simp add: tokens_prepend_word [OF assms(3) k])
  have s: "findall_words (lower (t1 @ c # t2))
          = findall_words (lower t1) @ findall_words (lower t2)"
    by (rule tokens_split [OF assms(2)])
  show ?thesis
    using assms(1)
    by (simp add: analyze_Builder a p i s verb_score_append verb_score_Cons verb_score_def)
qed

theorem C9_builder_monotone_witness:
  "''build'' \<in> set BUILDER_VERBS \<and> \<not> is_word_char CHR '' ''
   \<and> Builder (analyze_archetype ''I manage and code'') = 10
   \<and> Builder (analyze_archetype (''I manage and code'' @ CHR '' '' # ''build'')) = 20
   \<and> Builder (analyze_archetype (''build'' @ CHR '' '' # ''I manage and code'')) = 20
   \<and> Builder (analyze_archetype (''I manage'' @ CHR '' '' # ''build'' @ CHR '' '' # ''and code''))
       = Builder (analyze_archetype (''I manage'' @ CHR '' '' # ''and code'')) + 10"
proof -
  have m: "''build'' \<in> set BUILDER_VERBS" by (simp add: BUILDER_VERBS_def)
  have c: "\<not> is_word_char CHR '' ''" by (simp add: is_word_char_def)
  have b: "Builder (analyze_archetype ''I manage and code'') = 10" by code_simp
  from C9_builder_monotone [OF m c c, of "''I manage and code''" "''I manage''" "''and code''"]
  have "Builder (analyze_archetype (''I manage and code'' @ CHR '' '' # ''build''))
          = Builder (analyze_archetype ''I manage and code'') + 10
       \<and> Builder (analyze_archetype (''build'' @ CHR '' '' # ''I manage and code''))
          = Builder (analyze_archetype ''I manage and code'') + 10
       \<and> Builder (analyze_archetype (''I manage'' @ CHR '' '' # ''build'' @ CHR '' '' # ''and code''))
          = Builder (analyze_archetype (''I manage'' @ CHR '' '' # ''and code'')) + 10"
    by blast
  with m c b show ?thesis by (simp only: simp_thms)
qed

subsection \<open>Percentages\<close>

lemma truediv_pos: "0 < T \<Longrightarrow> truediv s T = Inr (rnd53 s T)"
  by (simp add: truediv_def)

lemma pct_value:
  "0 < T \<Longrightarrow> pct s T = Inr (rne (dval (fmul (rnd53 s T) (py_float 100))))"
  by (simp add: pct_def truediv_pos py_round_rne)

lemma pct_float_error:
  assumes "0 \<le> s" and "s \<le> T" and "0 < T"
  shows "\<bar>dval (fmul (rnd53 s T) (py_float 100)) - real_of_int s / real_of_int T * 100\<bar>
           < 1 / 2 ^ 45"
proof -
  define x where "x = real_of_int s / real_of_int T"
  define q where "q = dval (rnd53 s T)"
  define y where "y = dval (fmul (rnd53 s T) (py_float 100))"
  have x0: "0 \<le> x" using assms by (simp add: x_def)
  have "real_of_int s \<le> real_of_int T" using assms(2) by simp
  then have x1: "x \<le> 1" using assms(3) by (simp add: x_def)
  have e1: "\<bar>q - x\<bar> \<le> x / 2 ^ 53"
    unfolding q_def x_def by (rule rnd53_rel_error [OF assms(1,3)])
  have nn: "0 \<le> fst (rnd53 s T)" "0 \<le> fst (py_float 100)"
    using assms by (simp_all add: rnd53_fst_nonneg float_100_value)
  have e2: "\<bar>y - q * 100\<bar> \<le> q * 100 / 2 ^ 53"
    using fmul_rel_error [OF nn] by (simp add: y_def q_def dval_float_100)
  have p53: "(2::real) ^ 53 = 9007199254740992" and p45: "(2::real) ^ 45 = 35184372088832"
    by simp_all
  have a: "q - x \<le> x / 2 ^ 53 \<and> - (q - x) \<le> x / 2 ^ 53"
    using e1 by (simp only: abs_le_iff)
  have b: "y - q * 100 \<le> q * 100 / 2 ^ 53 \<and> - (y - q * 100) \<le> q * 100 / 2 ^ 53"
    using e2 by (simp only: abs_le_iff)
  have "y - x * 100 < 1 / 2 ^ 45 \<and> - (y - x * 100) < 1 / 2 ^ 45"
    using a b x0 x1 unfolding p53 p45 by linarith
  then have "\<bar>y - x * 100\<bar> < 1 / 2 ^ 45" by (simp only: abs_less_iff)
  then show ?thesis by (simp add: y_def x_def)
qed

lemma pct_near:
  assumes "0 \<le> s" and "s \<le> T" and "0 < T"
  shows "\<exists>p. pct s T = Inr p
            \<and> \<bar>real_of_int p - real_of_int s / real_of_int T * 100\<bar> < 1 / 2 + 1 / 2 ^ 45"
proof -
  define y where "y = dval (fmul (rnd53 s T) (py_float 100))"
  have "\<bar>real_of_int (rne y) - y\<bar> \<le> 1 / 2" by (rule rne_error)
  moreover have "\<bar>y - real_of_int s / real_of_int T * 100\<bar> < 1 / 2 ^ 45"
    unfolding y_def by (rule pct_float_error [OF assms])
  ultimately have "\<bar>real_of_int (rne y) - real_of_int s / real_of_int T * 100\<bar>
                     < 1 / 2 + 1 / 2 ^ 45"
    by linarith
  moreover have "pct s T = Inr (rne y)"
    unfolding y_def by (rule pct_value [OF assms(3)])
  ultimately show ?thesis by blast
qed

lemma insert_desc_sum: "sum_list (map snd (insert_desc x ys)) = snd x + sum_list (map snd ys)"
  by (induction ys) auto

lemma sorted_reverse_sum: "sum_list (map snd (sorted_reverse xs)) = sum_list (map snd xs)"
  unfolding sorted_reverse_def by (induction xs) (auto simp: insert_desc_sum)

lemma percentages_result:
  assumes "pct (Builder sc) (Total sc) = Inr pb" and "pct (Operator sc) (Total sc) = Inr po"
    and "pct (Bridge sc) (Total sc) = Inr pr"
  shows "\<exists>sorted_pcts is_hybrid.
           get_archetype_percentages sc
             = Inr ([(''Builder'', pb), (''Operator'', po), (''Bridge'', pr)],
                    sorted_pcts, is_hybrid)
           \<and> sum_list (map snd sorted_pcts) = pb + po + pr"
  using assms by (simp add: get_archetype_percentages_def Let_def sorted_reverse_sum)

lemma percentages_sum:
  assumes "0 \<le> Builder sc" and "0 \<le> Operator sc" and "0 \<le> Bridge sc"
    and "Total sc = Builder sc + Operator sc + Bridge sc" and "0 < Total sc"
  shows "\<exists>pb po pr sorted_pcts is_hybrid.
           get_archetype_percentages sc
             = Inr ([(''Builder'', pb), (''Operator'', po), (''Bridge'', pr)],
                    sorted_pcts, is_hybrid)
           \<and> (pb + po + pr = 99 \<or> pb + po + pr = 100 \<or> pb + po + pr = 101)
           \<and> sum_list (map snd sorted_pcts) = pb + po + pr"
proof -
  define T where "T = Total sc"
  have le: "Builder sc \<le> T" "Operator sc \<le> T" "Bridge sc \<le> T" and T: "0 < T"
    using assms by (simp_all add: T_def)
  from pct_near [OF assms(1) le(1) T] obtain pb where
    pb: "pct (Builder sc) T = Inr pb"
    "\<bar>real_of_int pb - real_of_int (Builder sc) / real_of_int T * 100\<bar> < 1 / 2 + 1 / 2 ^ 45"
    by blast
  from pct_near [OF assms(2) le(2) T] obtain po where
    po: "pct (Operator sc) T = Inr po"
    "\<bar>real_of_int po - real_of_int (Operator sc) / real_of_int T * 100\<bar> < 1 / 2 + 1 / 2 ^ 45"
    by blast
  from pct_near [OF assms(3) le(3) T] obtain pr where
    pr: "pct (Bridge sc) T = Inr pr"
    "\<bar>real_of_int pr - real_of_int (Bridge sc) / real_of_int T * 100\<bar> < 1 / 2 + 1 / 2 ^ 45"
    by blast
  have "real_of_int T = real_of_int (Builder sc) + real_of_int (Operator sc)
                          + real_of_int (Bridge sc)"
    using assms(4) by (simp add: T_def)
  then have "(real_of_int (Builder sc) + real_of_int (Operator sc) + real_of_int (Bridge sc))
               / real_of_int T * 100 = 100"
    using T by simp
  then have total: "real_of_int (Builder sc) / real_of_int T * 100
                  + real_of_int (Operator sc) / real_of_int T * 100
                  + real_of_int (Bridge sc) / real_of_int T * 100 = 100"
    by (simp add: add_divide_distrib distrib_right)
  have small: "(1::real) / 2 ^ 45 \<le> 1 / 8" by simp
  have "\<bar>real_of_int pb + real_of_int po + real_of_int pr - 100\<bar> < 2"
    using pb(2) po(2) pr(2) total small by linarith
  then have "\<bar>real_of_int (pb + po + pr - 100)\<bar> < real_of_int 2" by simp
  then have "real_of_int \<bar>pb + po + pr - 100\<bar> < real_of_int 2" by (simp only: of_int_abs)
  then have "\<bar>pb + po + pr - 100\<bar> < 2" by (simp only: of_int_less_iff)
  then have s: "pb + po + pr = 99 \<or> pb + po + pr = 100 \<or> pb + po + pr = 101" by presburger
  from percentages_result [OF pb(1) [unfolded T_def] po(1) [unfolded T_def] pr(1) [unfolded T_def]]
  obtain sorted_pcts is_hybrid where
    "get_archetype_percentages sc
       = Inr ([(''Builder'', pb), (''Operator'', po), (''Bridge'', pr)], sorted_pcts, is_hybrid)"
    "sum_list (map snd sorted_pcts) = pb + po + pr" by blast
  with s show ?thesis by blast
qed

lemma analyze_scores_nonneg:
  "0 \<le> Builder (analyze_archetype t) \<and> 0 \<le> Operator (analyze_archetype t)
   \<and> 0 \<le> Bridge (analyze_archetype t)"
  using analyze_fields [of t]
    executive_shift_nonneg [OF verb_score_nonneg commercial_boost_nonneg [OF verb_score_nonneg]]
  by (simp add: verb_score_nonneg)

lemma analyze_Total:
  "Builder (analyze_archetype t) + Operator (analyze_archetype t) + Bridge (analyze_archetype t) \<noteq> 0
   \<Longrightarrow> Total (analyze_archetype t)
         = Builder (analyze_archetype t) + Operator (analyze_archetype t)
             + Bridge (analyze_archetype t)"
  by (simp add: analyze_archetype_unfold Let_def split: if_splits)

lemma analyze_sum_with_hit:
  assumes "\<exists>w \<in> set (findall_words (lower t)).
             w \<in> set BUILDER_VERBS \<union> set OPERATOR_VERBS \<union> set BRIDGE_VERBS"
  shows "0 < Builder (analyze_archetype t) + Operator (analyze_archetype t)
               + Bridge (analyze_archetype t)"
proof -
  define ws where "ws = findall_words (lower t)"
  define b where "b = verb_score BUILDER_VERBS ws"
  define ov where "ov = verb_score OPERATOR_VERBS ws"
  define br where "br = verb_score BRIDGE_VERBS ws"
  define br' where "br' = commercial_boost (any_in SALES_KEYWORDS (lower t)) br"
  have nn: "0 \<le> b" "0 \<le> ov" "0 \<le> br"
    by (simp_all add: b_def ov_def br_def verb_score_nonneg)
  have "b \<noteq> 0 \<or> ov \<noteq> 0 \<or> br \<noteq> 0"
    using assms unfolding b_def ov_def br_def ws_def verb_score_zero_iff by blast
  with nn have some: "0 < b \<or> 0 < ov \<or> 0 < br" by linarith
  have br0: "0 \<le> br'" unfolding br'_def by (rule commercial_boost_nonneg [OF nn(3)])
  have brp: "0 < br \<Longrightarrow> 0 < br'" unfolding br'_def by (rule commercial_boost_pos)
  from some nn br0 brp have pos: "0 < b + ov + br'" by linarith
  from analyze_fields [of t]
  have "Builder (analyze_archetype t) = b"
    and "Operator (analyze_archetype t) + Bridge (analyze_archetype t)
           = fst (executive_shift (any_in EXECUTIVE_KEYWORDS (lower t)) (ov, br'))
             + snd (executive_shift (any_in EXECUTIVE_KEYWORDS (lower t)) (ov, br'))"
    by (simp_all add: b_def ov_def br_def br'_def ws_def)
  then have "Builder (analyze_archetype t) + Operator (analyze_archetype t)
               + Bridge (analyze_archetype t) = b + ov + br'"
    by (simp add: executive_shift_sum)
  with pos show ?thesis by simp
qed

text \<open>
  C10. For every text with at least one token in a lexicon, the result of
  \<open>analyze_archetype\<close> is not the sentinel, \<open>get_archetype_percentages\<close> returns on it, and
  the three percentages (in \<open>pcts\<close>, and so in the ranking) sum to 99, 100 or 101.
\<close>

theorem C10_percentage_sum:
  assumes "\<exists>w \<in> set (findall_words (lower t)).
             w \<in> set BUILDER_VERBS \<union> set OPERATOR_VERBS \<union> set BRIDGE_VERBS"
  shows "analyze_archetype t \<noteq> \<lparr>Builder = 0, Operator = 0, Bridge = 0, Total = 1\<rparr>
       \<and> (\<exists>pb po pr sorted_pcts is_hybrid.
             get_archetype_percentages (analyze_archetype t)
               = Inr ([(''Builder'', pb), (''Operator'', po), (''Bridge'', pr)],
                      sorted_pcts, is_hybrid)
             \<and> (pb + po + pr = 99 \<or> pb + po + pr = 100 \<or> pb + po + pr = 101)
             \<and> sum_list (map snd sorted_pcts) = pb + po + pr)"
proof -
  define sc where "sc = analyze_archetype t"
  have pos: "0 < Builder sc + Operator sc + Bridge sc"
    unfolding sc_def by (rule analyze_sum_with_hit [OF assms])
  have nn: "0 \<le> Builder sc" "0 \<le> Operator sc" "0 \<le> Bridge sc"
    using analyze_scores_nonneg [of t] by (simp_all add: sc_def)
  have tot: "Total sc = Builder sc + Operator sc + Bridge sc"
    unfolding sc_def using pos [unfolded sc_def] by (intro analyze_Total) simp
  have ne: "sc \<noteq> \<lparr>Builder = 0, Operator = 0, Bridge = 0, Total = 1\<rparr>"
  proof
    assume "sc = \<lparr>Builder = 0, Operator = 0, Bridge = 0, Total = 1\<rparr>"
    then have "Builder sc + Operator sc + Bridge sc = 0" by simp
    with pos show False by simp
  qed
  have T: "0 < Total sc" using pos tot by simp
  from percentages_sum [OF nn tot T] ne show ?thesis
    unfolding sc_def by blast
qed

theorem C10_percentage_sum_witness:
  "analyze_archetype ''Build, manage, win'' \<noteq> \<lparr>Builder = 0, Operator = 0, Bridge = 0, Total = 1\<rparr>
   \<and> get_archetype_percentages (analyze_archetype ''Build, manage, win'')
       = Inr ([(''Builder'', 33), (''Operator'', 33), (''Bridge'', 33)],
              [(''Builder'', 33), (''Operator'', 33), (''Bridge'', 33)], True)
   \<and> (33::int) + 33 + 33 = 99"
proof -
  have t: "findall_words (lower ''Build, manage, win'') = [''build'', ''manage'', ''win'']"
    by code_simp
  have m: "''build'' \<in> set BUILDER_VERBS \<union> set OPERATOR_VERBS \<union> set BRIDGE_VERBS"
    by (simp add: BUILDER_VERBS_def)
  have h: "\<exists>w \<in> set (findall_words (lower ''Build, manage, win'')).
             w \<in> set BUILDER_VERBS \<union> set OPERATOR_VERBS \<union> set BRIDGE_VERBS"
    unfolding t using m by simp
  have r: "get_archetype_percentages (analyze_archetype ''Build, manage, win'')
       = Inr ([(''Builder'', 33), (''Operator'', 33), (''Bridge'', 33)],
              [(''Builder'', 33), (''Operator'', 33), (''Bridge'', 33)], True)"
    by code_simp
  from C10_percentage_sum [OF h]
  have "analyze_archetype ''Build, manage, win''
          \<noteq> \<lparr>Builder = 0, Operator = 0, Bridge = 0, Total = 1\<rparr>" by blast
  with r show ?thesis by simp
qed

subsection \<open>Rounding of a percentage\<close>

lemma rne_strict: "frac x \<noteq> 1 / 2 \<Longrightarrow> \<bar>real_of_int (rne x) - x\<bar> < 1 / 2"
  unfolding rne_def frac_def Let_def by (auto; linarith)

lemma half_away_frac:
  assumes "\<bar>real_of_int p - x\<bar> = 1 / 2"
  shows "frac x = 1 / 2"
proof -
  from assms have "x = real_of_int p - 1 / 2 \<or> x = real_of_int p + 1 / 2" by linarith
  then have "x - 1 / 2 = real_of_int (p - 1) \<or> x - 1 / 2 = real_of_int p" by auto
  then have "x - 1 / 2 \<in> \<int>" by (metis Ints_of_int)
  then have "x - 1 / 2 \<in> \<int> \<and> (0::real) \<le> 1 / 2 \<and> (1 / 2 :: real) < 1" by simp
  then show ?thesis by (simp only: frac_unique_iff)
qed

lemma nearest_unique:
  assumes "\<bar>real_of_int p - x\<bar> \<le> 1 / 2" and "frac x \<noteq> 1 / 2"
  shows "p = rne x"
proof -
  have "\<bar>real_of_int p - x\<bar> \<noteq> 1 / 2" using half_away_frac assms(2) by blast
  with assms(1) have "\<bar>real_of_int p - x\<bar> < 1 / 2" by linarith
  moreover have "\<bar>real_of_int (rne x) - x\<bar> < 1 / 2" by (rule rne_strict [OF assms(2)])
  ultimately have "\<bar>real_of_int p - real_of_int (rne x)\<bar> < 1" by linarith
  then have "\<bar>real_of_int (p - rne x)\<bar> < real_of_int 1" by simp
  then have "real_of_int \<bar>p - rne x\<bar> < real_of_int 1" by (simp only: of_int_abs)
  then have "\<bar>p - rne x\<bar> < 1" by (simp only: of_int_less_iff)
  then show ?thesis by linarith
qed

lemma pct_nearest:
  assumes "0 \<le> s" and "s \<le> T" and "0 < T" and "T \<le> 2 ^ 44"
  shows "\<exists>p. pct s T = Inr p \<and> nearest_pct p s T"
proof -
  define X where "X = real_of_int s / real_of_int T * 100"
  from pct_near [OF assms(1-3)] obtain p where p: "pct s T = Inr p"
    and near: "\<bar>real_of_int p - X\<bar> < 1 / 2 + 1 / 2 ^ 45" unfolding X_def by blast
  define D where "D = T * p - 100 * s"
  have Tp: "0 < real_of_int T" using assms(3) by simp
  have XT: "X * real_of_int T = 100 * real_of_int s"
    using Tp by (simp add: X_def)
  have De: "real_of_int D = real_of_int T * (real_of_int p - X)"
    by (simp add: D_def algebra_simps XT)
  have "\<bar>real_of_int D\<bar> = real_of_int T * \<bar>real_of_int p - X\<bar>"
    using Tp by (simp add: De abs_mult)
  also have "\<dots> < real_of_int T * (1 / 2 + 1 / 2 ^ 45)"
    using near Tp by (rule mult_strict_left_mono)
  finally have lt: "\<bar>real_of_int D\<bar> < real_of_int T * (1 / 2 + 1 / 2 ^ 45)" .
  have "real_of_int T \<le> real_of_int (2 ^ 44)" using assms(4) by (simp only: of_int_le_iff)
  then have T44: "real_of_int T \<le> 17592186044416" by simp
  have "real_of_int T * (1 / 2 + 1 / 2 ^ 45) = real_of_int T / 2 + real_of_int T / 35184372088832"
    by (simp add: algebra_simps)
  with lt T44 have "2 * \<bar>real_of_int D\<bar> < real_of_int T + 1" by linarith
  then have "real_of_int (2 * \<bar>D\<bar>) < real_of_int (T + 1)" by simp
  then have "2 * \<bar>D\<bar> < T + 1" by (simp only: of_int_less_iff)
  then have "2 * \<bar>D\<bar> \<le> T" by simp
  then have "real_of_int (2 * \<bar>D\<bar>) \<le> real_of_int T" by (simp only: of_int_le_iff)
  then have "real_of_int T * \<bar>real_of_int p - X\<bar> \<le> real_of_int T * (1 / 2)"
    using Tp by (simp add: De abs_mult)
  then have half: "\<bar>real_of_int p - X\<bar> \<le> 1 / 2"
    using Tp by (simp only: mult_le_cancel_left_pos)
  then have "nearest_pct p s T"
    unfolding nearest_pct_def X_def [symmetric] using nearest_unique [of p X] by blast
  with p show ?thesis by blast
qed

text \<open>
  C8, as the code has it. Each percentage is \<open>round\<close>, which rounds an exact half to the
  even neighbour, applied to the double-precision product \<open>(score / Total) * 100\<close>, not to
  the exact quotient. For scores between 0 and a Total of at most \<open>2 ^ 44\<close> it is a nearest
  integer to the exact \<open>score / Total * 100\<close>: it is the round-half-even of the exact value
  whenever that value is not an exact half, and one of its two neighbours when it is.
\<close>

theorem C8_percentage_rounding:
  assumes "0 \<le> Builder sc" and "0 \<le> Operator sc" and "0 \<le> Bridge sc"
    and "Builder sc + Operator sc + Bridge sc \<le> Total sc"
    and "0 < Total sc" and "Total sc \<le> 2 ^ 44"
  shows "\<exists>pb po pr sorted_pcts is_hybrid.
           get_archetype_percentages sc
             = Inr ([(''Builder'', pb), (''Operator'', po), (''Bridge'', pr)],
                    sorted_pcts, is_hybrid)
           \<and> pct (Builder sc) (Total sc)
               = Inr (rne (dval (fmul (rnd53 (Builder sc) (Total sc)) (py_float 100))))
           \<and> pct (Builder sc) (Total sc) = Inr pb \<and> pct (Operator sc) (Total sc) = Inr po
           \<and> pct (Bridge sc) (Total sc) = Inr pr
           \<and> nearest_pct pb (Builder sc) (Total sc)
           \<and> nearest_pct po (Operator sc) (Total sc)
           \<and> nearest_pct pr (Bridge sc) (Total sc)"
proof -
  have le: "Builder sc \<le> Total sc" "Operator sc \<le> Total sc" "Bridge sc \<le> Total sc"
    using assms(1-4) by simp_all
  from pct_nearest [OF assms(1) le(1) assms(5,6)] obtain pb where
    pb: "pct (Builder sc) (Total sc) = Inr pb" "nearest_pct pb (Builder sc) (Total sc)" by blast
  from pct_nearest [OF assms(2) le(2) assms(5,6)] obtain po where
    po: "pct (Operator sc) (Total sc) = Inr po" "nearest_pct po (Operator sc) (Total sc)" by blast
  from pct_nearest [OF assms(3) le(3) assms(5,6)] obtain pr where
    pr: "pct (Bridge sc) (Total sc) = Inr pr" "nearest_pct pr (Bridge sc) (Total sc)" by blast
  from percentages_result [OF pb(1) po(1) pr(1)] obtain sorted_pcts is_hybrid where
    "get_archetype_percentages sc
       = Inr ([(''Builder'', pb), (''Operator'', po), (''Bridge'', pr)], sorted_pcts, is_hybrid)"
    by blast
  with pb po pr pct_value [OF assms(5), of "Builder sc"] show ?thesis by blast
qed

theorem C8_percentage_rounding_witness:
  "get_archetype_percentages \<lparr>Builder = 30, Operator = 120, Bridge = 90, Total = 240\<rparr>
     = Inr ([(''Builder'', 12), (''Operator'', 50), (''Bridge'', 38)],
            [(''Operator'', 50), (''Bridge'', 38), (''Builder'', 12)], True)
   \<and> nearest_pct 12 30 240 \<and> nearest_pct 50 120 240 \<and> nearest_pct 38 90 240
   \<and> frac (real_of_int 30 / real_of_int 240 * 100) = 1 / 2
   \<and> frac (real_of_int 120 / real_of_int 240 * 100) \<noteq> 1 / 2
   \<and> 50 = rne (real_of_int 120 / real_of_int 240 * 100)"
proof -
  let ?sc = "\<lparr>Builder = 30, Operator = 120, Bridge = 90, Total = 240\<rparr>"
  have r: "get_archetype_percentages ?sc
     = Inr ([(''Builder'', 12), (''Operator'', 50), (''Bridge'', 38)],
            [(''Operator'', 50), (''Bridge'', 38), (''Builder'', 12)], True)"
    by code_simp
  have "\<exists>pb po pr sorted_pcts is_hybrid.
           get_archetype_percentages ?sc
             = Inr ([(''Builder'', pb), (''Operator'', po), (''Bridge'', pr)],
                    sorted_pcts, is_hybrid)
           \<and> nearest_pct pb (Builder ?sc) (Total ?sc)
           \<and> nearest_pct po (Operator ?sc) (Total ?sc)
           \<and> nearest_pct pr (Bridge ?sc) (Total ?sc)"
    using C8_percentage_rounding [of ?sc] by simp blast
  then have n: "nearest_pct 12 30 240 \<and> nearest_pct 50 120 240 \<and> nearest_pct 38 90 240"
    unfolding r by simp
  have f1: "frac (real_of_int 30 / real_of_int 240 * 100) = 1 / 2"
    by (simp add: frac_def)
  have f2: "frac (real_of_int 120 / real_of_int 240 * 100) \<noteq> 1 / 2"
    by (simp add: frac_def)
  from n f2 have "50 = rne (real_of_int 120 / real_of_int 240 * 100)"
    unfolding nearest_pct_def by blast
  with r n f1 f2 show ?thesis by blast
qed

theorem C8_round_half_even_counterexample:
  "analyze_archetype (concat (replicate 23 ''build '') @ concat (replicate 17 ''run ''))
     = \<lparr>Builder = 230, Operator = 170, Bridge = 0, Total = 400\<rparr>
   \<and> get_archetype_percentages \<lparr>Builder = 230, Operator = 170, Bridge = 0, Total = 400\<rparr>
     = Inr ([(''Builder'', 57), (''Operator'', 42), (''Bridge'', 0)],
            [(''Builder'', 57), (''Operator'', 42), (''Bridge'', 0)], True)
   \<and> real_of_int 230 / real_of_int 400 * 100 = 115 / 2
   \<and> rne (real_of_int 230 / real_of_int 400 * 100) = 58"
proof -
  have a: "analyze_archetype (concat (replicate 23 ''build '') @ concat (replicate 17 ''run ''))
     = \<lparr>Builder = 230, Operator = 170, Bridge = 0, Total = 400\<rparr>"
    by code_simp
  have b: "get_archetype_percentages \<lparr>Builder = 230, Operator = 170, Bridge = 0, Total = 400\<rparr>
     = Inr ([(''Builder'', 57), (''Operator'', 42), (''Bridge'', 0)],
            [(''Builder'', 57), (''Operator'', 42), (''Bridge'', 0)], True)"
    by code_simp
  have c: "real_of_int 230 / real_of_int 400 * 100 = 115 / 2" by simp
  have d: "rne (real_of_int 230 / real_of_int 400 * 100) = 58"
    by (simp add: rne_def Let_def)
  from a b c d show ?thesis by blast
qed

end
